theory Spec2Isabelle
  imports Complex_Main "HOL-Library.Sublist"
begin

section \<open>Strings and values of the host language\<close>

text \<open>
  A JavaScript string is a sequence of code units. The model takes the code units
  U+0000 to U+00FF (one \<^typ>\<open>char\<close> each), on which \<^verbatim>\<open>toLowerCase\<close> acts one
  character at a time: the letters A to Z and the Latin-1 capitals U+00C0 to U+00DE
  (the multiplication sign U+00D7 apart) move up by 32, every other code unit stays.
\<close>

definition upperCaseCode :: "nat \<Rightarrow> bool" where
  "upperCaseCode n = ((65 \<le> n \<and> n \<le> 90) \<or> (192 \<le> n \<and> n \<le> 222 \<and> n \<noteq> 215))"

definition toLowerCaseChar :: "char \<Rightarrow> char" where
  "toLowerCaseChar c =
     (if upperCaseCode (of_char c) then char_of (of_char c + 32 :: nat) else c)"

definition toLowerCase :: "string \<Rightarrow> string" where
  "toLowerCase s = map toLowerCaseChar s"

text \<open>\<^verbatim>\<open>s.includes(t)\<close> and \<^verbatim>\<open>s.startsWith(t)\<close>, receiver first as in the source.\<close>

definition str_includes :: "string \<Rightarrow> string \<Rightarrow> bool" where
  "str_includes s t = sublist t s"

definition startsWith :: "string \<Rightarrow> string \<Rightarrow> bool" where
  "startsWith s t = prefix t s"

text \<open>
  The values a field of a record may hold: \<^verbatim>\<open>undefined\<close>, \<^verbatim>\<open>null\<close>, booleans,
  integral numbers and strings. A record (a plain object) is a finite map from property
  names to values; reading a property that the object does not have gives
  \<^verbatim>\<open>undefined\<close>.
\<close>

datatype jsval = JUndefined | JNull | JBool bool | JNum int | JStr string

type_synonym item = "string \<rightharpoonup> jsval"

definition getProp :: "item \<Rightarrow> string \<Rightarrow> jsval" where
  "getProp obj k = (case obj k of None \<Rightarrow> JUndefined | Some v \<Rightarrow> v)"

fun truthy :: "jsval \<Rightarrow> bool" where
  "truthy JUndefined = False"
| "truthy JNull = False"
| "truthy (JBool b) = b"
| "truthy (JNum n) = (n \<noteq> 0)"
| "truthy (JStr s) = (s \<noteq> [])"

text \<open>Strict equality \<^verbatim>\<open>===\<close> on these values is equality of the values.\<close>

definition strict_eq :: "jsval \<Rightarrow> jsval \<Rightarrow> bool" where
  "strict_eq a b = (a = b)"

datatype error = SyntaxError | TypeError

text \<open>
  What the code takes from its host and does not define itself:
  \<^item> \<open>regexpTest p s\<close> is \<^verbatim>\<open>new RegExp(p, 'gi').test(s)\<close> on a regular expression
    made for this one call; \<open>None\<close> when the constructor throws a SyntaxError;
  \<^item> \<open>arraySort cmp n\<close> is \<^verbatim>\<open>Array.prototype.sort\<close> on an array of \<open>n\<close> elements,
    which it sees through the comparator alone: \<open>cmp i j\<close> compares the elements now at
    positions \<open>i\<close> and \<open>j\<close> and may throw or return NaN (\<open>None\<close>); the result lists
    the old positions in their new order;
  \<^item> \<open>localeCompare s v\<close> is \<^verbatim>\<open>s.localeCompare(v)\<close> in the host's locale;
  \<^item> \<open>dateTime v\<close> is the time value of \<^verbatim>\<open>new Date(v)\<close>, \<open>None\<close> for an invalid date;
  \<^item> \<open>dateString v\<close> is \<^verbatim>\<open>new Date(v).toDateString()\<close>.
  Every definition below that depends on the host takes it as its first argument, and
  the general theorems hold for every host.
\<close>

record host =
  regexpTest :: "string \<Rightarrow> string \<Rightarrow> bool option"
  arraySort :: "(nat \<Rightarrow> nat \<Rightarrow> error + int option) \<Rightarrow> nat \<Rightarrow> error + nat list"
  localeCompare :: "string \<Rightarrow> jsval \<Rightarrow> int"
  dateTime :: "jsval \<Rightarrow> int option"
  dateString :: "jsval \<Rightarrow> string"

section \<open>The matchers of searchUtils.js\<close>

definition exactMatch :: "string \<Rightarrow> string \<Rightarrow> bool" where
  "exactMatch text term = (toLowerCase text = toLowerCase term)"

definition substringMatch :: "string \<Rightarrow> string \<Rightarrow> bool" where
  "substringMatch text term = str_includes (toLowerCase text) (toLowerCase term)"

text \<open>
  \<^verbatim>\<open>wordMatch\<close> pastes the term, as it is, between two \<^verbatim>\<open>\b\<close> into the source of a
  regular expression; the constructor throws when the result is not a pattern.
\<close>

definition wordPattern :: "string \<Rightarrow> string" where
  "wordPattern term = [CHR 0x5C, CHR ''b''] @ term @ [CHR 0x5C, CHR ''b'']"

definition wordMatch :: "host \<Rightarrow> string \<Rightarrow> string \<Rightarrow> error + bool" where
  "wordMatch h text term =
     (case regexpTest h (wordPattern term) text of
        None \<Rightarrow> Inl SyntaxError
      | Some b \<Rightarrow> Inr b)"

text \<open>
  The scan of \<^verbatim>\<open>fuzzyMatch\<close>:
  \<^verbatim>\<open>for (let i = 0; i < lowerText.length && termIndex < lowerTerm.length; i++)\<close>.
  It returns the final \<open>(matches, termIndex)\<close>.
\<close>

function fuzzy_loop :: "string \<Rightarrow> string \<Rightarrow> nat \<Rightarrow> nat \<Rightarrow> nat \<Rightarrow> nat \<times> nat" where
  "fuzzy_loop lowerText lowerTerm i matches termIndex =
     (if i < length lowerText \<and> termIndex < length lowerTerm then
        (if lowerText ! i = lowerTerm ! termIndex
         then fuzzy_loop lowerText lowerTerm (Suc i) (Suc matches) (Suc termIndex)
         else fuzzy_loop lowerText lowerTerm (Suc i) matches termIndex)
      else (matches, termIndex))"
  by pat_completeness auto
termination
  by (relation "measure (\<lambda>(lowerText, lowerTerm, i, matches, termIndex). length lowerText - i)")
    auto

declare fuzzy_loop.simps [simp del]

definition fuzzyMatch :: "host \<Rightarrow> string \<Rightarrow> string \<Rightarrow> error + rat" where
  "fuzzyMatch h text term =
     (let lowerText = toLowerCase text; lowerTerm = toLowerCase term in
      if lowerText = lowerTerm then Inr 1
      else if str_includes lowerText lowerTerm then Inr (9 / 10)
      else
        (case wordMatch h text term of
           Inl e \<Rightarrow> Inl e
         | Inr True \<Rightarrow> Inr (8 / 10)
         | Inr False \<Rightarrow>
             (case fuzzy_loop lowerText lowerTerm 0 0 0 of
                (matches, termIndex) \<Rightarrow>
                  if termIndex = length lowerTerm
                  then Inr (of_nat matches / of_nat (length lowerText))
                  else Inr 0)))"

definition prefixMatch :: "string \<Rightarrow> string \<Rightarrow> bool" where
  "prefixMatch text term = startsWith (toLowerCase text) (toLowerCase term)"

text \<open>
  \<^verbatim>\<open>multiFieldSearch\<close> picks its match function by reading the property \<open>matchType\<close>
  of an object literal with the five keys exact, substring, word, fuzzy and prefix, and
  takes \<^verbatim>\<open>substringMatch\<close> when the read gives a falsy value. An object literal
  inherits from \<^verbatim>\<open>Object.prototype\<close>, so the read finds a value for the names
  of that prototype's members too:
  \<^item> \<^verbatim>\<open>constructor\<close> is \<^verbatim>\<open>Object\<close>, which called on a string returns a wrapper
    object;
  \<^item> \<^verbatim>\<open>toString\<close>, called without a receiver, returns the string
    \<^verbatim>\<open>[object Undefined]\<close>;
  \<^item> \<^verbatim>\<open>isPrototypeOf\<close> returns \<^verbatim>\<open>false\<close> for an argument that is not an object;
  \<^item> \<^verbatim>\<open>valueOf\<close>, \<^verbatim>\<open>hasOwnProperty\<close>, \<^verbatim>\<open>propertyIsEnumerable\<close>,
    \<^verbatim>\<open>toLocaleString\<close> and the four \<^verbatim>\<open>__defineGetter__\<close>-style members throw a
    TypeError without a receiver, and \<^verbatim>\<open>__proto__\<close> is an object that cannot be
    called.
\<close>

datatype matcher =
  Exact | Substring | Word | Fuzzy | Prefix
| ObjectConstructor | ObjectToString | ObjectIsPrototypeOf | NotCallable

definition throwingMembers :: "string list" where
  "throwingMembers =
     [''valueOf'', ''hasOwnProperty'', ''propertyIsEnumerable'', ''toLocaleString'',
      ''__proto__'', ''__defineGetter__'', ''__defineSetter__'',
      ''__lookupGetter__'', ''__lookupSetter__'']"

definition matchFunction :: "string \<Rightarrow> matcher" where
  "matchFunction matchType =
     (if matchType = ''exact'' then Exact
      else if matchType = ''substring'' then Substring
      else if matchType = ''word'' then Word
      else if matchType = ''fuzzy'' then Fuzzy
      else if matchType = ''prefix'' then Prefix
      else if matchType = ''constructor'' then ObjectConstructor
      else if matchType = ''toString'' then ObjectToString
      else if matchType = ''isPrototypeOf'' then ObjectIsPrototypeOf
      else if matchType \<in> set throwingMembers then NotCallable
      else Substring)"

text \<open>What a call of the match function returns: a boolean, a score, or an object or
  non-empty string (which is truthy and compares as NaN).\<close>

datatype match_value = MBool bool | MScore rat | MTruthy

fun callMatcher :: "host \<Rightarrow> matcher \<Rightarrow> string \<Rightarrow> string \<Rightarrow> error + match_value" where
  "callMatcher h Exact text term = Inr (MBool (exactMatch text term))"
| "callMatcher h Substring text term = Inr (MBool (substringMatch text term))"
| "callMatcher h Word text term = map_sum id MBool (wordMatch h text term)"
| "callMatcher h Fuzzy text term = map_sum id MScore (fuzzyMatch h text term)"
| "callMatcher h Prefix text term = Inr (MBool (prefixMatch text term))"
| "callMatcher h ObjectConstructor text term = Inr MTruthy"
| "callMatcher h ObjectToString text term = Inr MTruthy"
| "callMatcher h ObjectIsPrototypeOf text term = Inr (MBool False)"
| "callMatcher h NotCallable text term = Inl TypeError"

text \<open>\<^verbatim>\<open>score > 0.5\<close> and the truth value of a returned value.\<close>

fun exceedsHalf :: "match_value \<Rightarrow> bool" where
  "exceedsHalf (MBool b) = b"
| "exceedsHalf (MScore s) = (s > 1 / 2)"
| "exceedsHalf MTruthy = False"

fun isTruthy :: "match_value \<Rightarrow> bool" where
  "isTruthy (MBool b) = b"
| "isTruthy (MScore s) = (s \<noteq> 0)"
| "isTruthy MTruthy = True"

text \<open>The result of \<^verbatim>\<open>multiFieldSearch\<close>: \<^verbatim>\<open>false\<close> is \<open>None\<close>, and
  \<^verbatim>\<open>{ match: true, field, score }\<close> is \<open>Some\<close> of the field and, for fuzzy, the score.\<close>

record match_result =
  mfield :: string
  mscore :: "rat option"

fun field_loop ::
  "host \<Rightarrow> string \<Rightarrow> matcher \<Rightarrow> item \<Rightarrow> string \<Rightarrow> string list \<Rightarrow> error + match_result option"
where
  "field_loop h matchType mf obj term [] = Inr None"
| "field_loop h matchType mf obj term (field # rest) =
     (case obj field of
        Some (JStr v) \<Rightarrow>
          if v = [] then field_loop h matchType mf obj term rest
          else if matchType = ''fuzzy'' then
            (case callMatcher h mf v term of
               Inl e \<Rightarrow> Inl e
             | Inr score \<Rightarrow>
                 if exceedsHalf score
                 then Inr (Some \<lparr>mfield = field,
                        mscore = (case score of MScore s \<Rightarrow> Some s | _ \<Rightarrow> None)\<rparr>)
                 else field_loop h matchType mf obj term rest)
          else
            (case callMatcher h mf v term of
               Inl e \<Rightarrow> Inl e
             | Inr r \<Rightarrow>
                 if isTruthy r then Inr (Some \<lparr>mfield = field, mscore = None\<rparr>)
                 else field_loop h matchType mf obj term rest)
      | _ \<Rightarrow> field_loop h matchType mf obj term rest)"

definition multiFieldSearch ::
  "host \<Rightarrow> item \<Rightarrow> string \<Rightarrow> string list \<Rightarrow> string \<Rightarrow> error + match_result option"
where
  "multiFieldSearch h obj term flds matchType =
     (if term = [] \<or> flds = [] then Inr None
      else field_loop h matchType (matchFunction matchType) obj term flds)"

section \<open>The tokenizer\<close>

text \<open>The loop of \<^verbatim>\<open>parseSearchQuery\<close>, by index as in the source; it returns the
  final \<open>(tokens, current)\<close>.\<close>

function parse_loop ::
  "string \<Rightarrow> nat \<Rightarrow> string list \<Rightarrow> string \<Rightarrow> bool \<Rightarrow> string list \<times> string"
where
  "parse_loop query i tokens current inQuotes =
     (if i < length query then
        (let char = query ! i in
         if char = CHR 0x22 then parse_loop query (Suc i) tokens current (\<not> inQuotes)
         else if char = CHR 0x20 \<and> \<not> inQuotes then
           (if current \<noteq> [] then parse_loop query (Suc i) (tokens @ [current]) [] inQuotes
            else parse_loop query (Suc i) tokens current inQuotes)
         else parse_loop query (Suc i) tokens (current @ [char]) inQuotes)
      else (tokens, current))"
  by pat_completeness auto
termination
  by (relation "measure (\<lambda>(query, i, tokens, current, inQuotes). length query - i)") auto

declare parse_loop.simps [simp del]

definition parseSearchQuery :: "string \<Rightarrow> string list" where
  "parseSearchQuery query =
     (case parse_loop query 0 [] [] False of
        (tokens, current) \<Rightarrow>
          filter (\<lambda>token. length token > 0)
            (if current \<noteq> [] then tokens @ [current] else tokens))"

text \<open>
  The tokenizer as the specification words it: a scan over the characters with the
  tokens closed so far, the accumulating token and the inside-quotes flag.
\<close>

fun scan :: "string \<Rightarrow> string list \<Rightarrow> string \<Rightarrow> bool \<Rightarrow> string list" where
  "scan [] tokens current inQuotes =
     (if current \<noteq> [] then tokens @ [current] else tokens)"
| "scan (c # cs) tokens current inQuotes =
     (if c = CHR 0x22 then scan cs tokens current (\<not> inQuotes)
      else if c = CHR 0x20 \<and> \<not> inQuotes then
        (if current \<noteq> [] then scan cs (tokens @ [current]) [] inQuotes
         else scan cs tokens [] inQuotes)
      else scan cs tokens (current @ [c]) inQuotes)"

definition flush :: "string list \<times> string \<Rightarrow> string list" where
  "flush p =
     (case p of (tokens, current) \<Rightarrow> if current \<noteq> [] then tokens @ [current] else tokens)"

section \<open>The scorer\<close>

fun score_loop :: "host \<Rightarrow> item \<Rightarrow> string \<Rightarrow> string \<Rightarrow> string list \<Rightarrow> int \<Rightarrow> error + int" where
  "score_loop h obj term lowerTerm [] score = Inr score"
| "score_loop h obj term lowerTerm (field # rest) score =
     (case obj field of
        Some (JStr v) \<Rightarrow>
          if v = [] then score_loop h obj term lowerTerm rest score
          else
            (let lowerValue = toLowerCase v in
             if lowerValue = lowerTerm then score_loop h obj term lowerTerm rest (score + 100)
             else if startsWith lowerValue lowerTerm
               then score_loop h obj term lowerTerm rest (score + 75)
             else if str_includes lowerValue lowerTerm
               then score_loop h obj term lowerTerm rest (score + 50)
             else
               (case wordMatch h v term of
                  Inl e \<Rightarrow> Inl e
                | Inr True \<Rightarrow> score_loop h obj term lowerTerm rest (score + 25)
                | Inr False \<Rightarrow> score_loop h obj term lowerTerm rest score))
      | _ \<Rightarrow> score_loop h obj term lowerTerm rest score)"

definition scoreSearchResult :: "host \<Rightarrow> item \<Rightarrow> string \<Rightarrow> string list \<Rightarrow> error + int" where
  "scoreSearchResult h obj term searchFields =
     (if term = [] then Inr 0
      else score_loop h obj term (toLowerCase term) searchFields 0)"

section \<open>The evaluation of useElasticSearch.js\<close>

text \<open>
  The body of the \<^verbatim>\<open>useMemo\<close> callback of \<^verbatim>\<open>useElasticSearch\<close>, as a function
  of what it reads: the records, the search fields, the options, the debounced term, the
  applied filters, the sort order and the two readings of the clock.
\<close>

record options =
  matchType :: string
  rankResults :: bool
  maxResults :: "int option"

record applied_filter =
  ftype :: jsval
  fvalue :: jsval

record statistics =
  searched :: bool
  termsCount :: nat
  tokensUsed :: "string list option"

record search_result =
  results :: "item list"
  resultCount :: nat
  searchTime :: real
  stats :: statistics

text \<open>\<^verbatim>\<open>Array.prototype.every\<close> and \<^verbatim>\<open>filter\<close> with a callback that may throw: the
  elements are visited in order, \<^verbatim>\<open>every\<close> stops at the first falsy answer, and
  an exception ends the whole call.\<close>

fun every_e :: "('a \<Rightarrow> error + bool) \<Rightarrow> 'a list \<Rightarrow> error + bool" where
  "every_e p [] = Inr True"
| "every_e p (x # xs) =
     (case p x of
        Inl e \<Rightarrow> Inl e
      | Inr b \<Rightarrow> if b then every_e p xs else Inr False)"

fun filter_e :: "('a \<Rightarrow> error + bool) \<Rightarrow> 'a list \<Rightarrow> error + 'a list" where
  "filter_e p [] = Inr []"
| "filter_e p (x # xs) =
     (case p x of
        Inl e \<Rightarrow> Inl e
      | Inr b \<Rightarrow>
          (case filter_e p xs of
             Inl e \<Rightarrow> Inl e
           | Inr ys \<Rightarrow> Inr (if b then x # ys else ys)))"

fun map_e :: "('a \<Rightarrow> error + 'b) \<Rightarrow> 'a list \<Rightarrow> error + 'b list" where
  "map_e f [] = Inr []"
| "map_e f (x # xs) =
     (case f x of
        Inl e \<Rightarrow> Inl e
      | Inr y \<Rightarrow>
          (case map_e f xs of
             Inl e \<Rightarrow> Inl e
           | Inr ys \<Rightarrow> Inr (y # ys)))"

text \<open>Lines 77 to 82: the callback of the text filter, and the filter.\<close>

definition tokenMatches :: "host \<Rightarrow> string list \<Rightarrow> string \<Rightarrow> item \<Rightarrow> string \<Rightarrow> error + bool" where
  "tokenMatches h searchFields mt obj token =
     map_sum id (\<lambda>r. r \<noteq> None) (multiFieldSearch h obj token searchFields mt)"

definition textFilter ::
  "host \<Rightarrow> string list \<Rightarrow> string \<Rightarrow> string list \<Rightarrow> item list \<Rightarrow> error + item list"
where
  "textFilter h searchFields mt searchTokens filtered =
     filter_e (\<lambda>obj. every_e (tokenMatches h searchFields mt obj) searchTokens) filtered"

text \<open>Lines 85 to 92: each survivor is copied with its score, and the copies are sorted
  by descending score. The comparator is a difference of integers, so the stable sort
  that the language prescribes has one possible result.\<close>

definition withScore :: "host \<Rightarrow> string \<Rightarrow> string list \<Rightarrow> item \<Rightarrow> error + item" where
  "withScore h term searchFields obj =
     map_sum id (\<lambda>n. obj(''_searchScore'' \<mapsto> JNum n)) (scoreSearchResult h obj term searchFields)"

definition searchScore :: "item \<Rightarrow> int" where
  "searchScore obj = (case obj ''_searchScore'' of Some (JNum n) \<Rightarrow> n | _ \<Rightarrow> 0)"

definition rank :: "host \<Rightarrow> string \<Rightarrow> string list \<Rightarrow> item list \<Rightarrow> error + item list" where
  "rank h term searchFields filtered =
     map_sum id (sort_key (\<lambda>obj. - searchScore obj)) (map_e (withScore h term searchFields) filtered)"

text \<open>Lines 96 to 113: the secondary filters.\<close>

definition passesFilter :: "host \<Rightarrow> item \<Rightarrow> applied_filter \<Rightarrow> bool" where
  "passesFilter h obj flt =
     (if ftype flt = JStr ''status'' \<and> fvalue flt \<noteq> JUndefined
        then strict_eq (getProp obj ''completed'') (fvalue flt)
      else if ftype flt = JStr ''priority'' \<and> truthy (fvalue flt)
        then strict_eq (getProp obj ''priority'') (fvalue flt)
      else if ftype flt = JStr ''dueDate'' \<and> truthy (fvalue flt)
        then dateString h (getProp obj ''dueDate'') = dateString h (fvalue flt)
      else True)"

definition applyFilters :: "host \<Rightarrow> applied_filter list \<Rightarrow> item list \<Rightarrow> item list" where
  "applyFilters h appliedFilters filtered =
     (if length appliedFilters > 0
      then filter (\<lambda>obj. list_all (passesFilter h obj) appliedFilters) filtered
      else filtered)"

text \<open>Lines 116 to 120: the sort by name or by creation date, through the host's sort.
  Reading \<^verbatim>\<open>localeCompare\<close> off a title that is not a string throws a TypeError, and
  the difference of two dates is NaN when one of them is invalid. A sort asks for
  positions of the array only; the comparator answers NaN for any other.\<close>

definition compareAt :: "('a \<Rightarrow> 'a \<Rightarrow> error + int option) \<Rightarrow> 'a list \<Rightarrow> nat \<Rightarrow> nat \<Rightarrow> error + int option" where
  "compareAt cmp xs i j =
     (if i < length xs \<and> j < length xs then cmp (xs ! i) (xs ! j) else Inr None)"

definition sortWith :: "host \<Rightarrow> ('a \<Rightarrow> 'a \<Rightarrow> error + int option) \<Rightarrow> 'a list \<Rightarrow> error + 'a list" where
  "sortWith h cmp xs =
     (case arraySort h (compareAt cmp xs) (length xs) of
        Inl e \<Rightarrow> Inl e
      | Inr order \<Rightarrow> Inr (map (\<lambda>i. xs ! i) (filter (\<lambda>i. i < length xs) order)))"

definition titleCompare :: "host \<Rightarrow> item \<Rightarrow> item \<Rightarrow> error + int option" where
  "titleCompare h a b =
     (case getProp a ''title'' of
        JStr s \<Rightarrow> Inr (Some (localeCompare h s (getProp b ''title'')))
      | _ \<Rightarrow> Inl TypeError)"

definition recentCompare :: "host \<Rightarrow> item \<Rightarrow> item \<Rightarrow> error + int option" where
  "recentCompare h a b =
     Inr (case (dateTime h (getProp b ''createdAt''), dateTime h (getProp a ''createdAt'')) of
            (Some tb, Some ta) \<Rightarrow> Some (tb - ta)
          | _ \<Rightarrow> None)"

definition sortResults :: "host \<Rightarrow> string \<Rightarrow> string list \<Rightarrow> item list \<Rightarrow> error + item list" where
  "sortResults h sortBy searchFields filtered =
     (if sortBy = ''name'' \<and> ''title'' \<in> set searchFields
        then sortWith h (titleCompare h) filtered
      else if sortBy = ''recent''
        then sortWith h (recentCompare h) filtered
      else Inr filtered)"

text \<open>Lines 123 to 125: \<^verbatim>\<open>slice(0, k)\<close> counts a negative \<open>k\<close> from the end, and the
  test \<^verbatim>\<open>maxResults && ...\<close> takes 0 like \<^verbatim>\<open>null\<close>.\<close>

definition slice0 :: "'a list \<Rightarrow> int \<Rightarrow> 'a list" where
  "slice0 xs k = (if k < 0 then take (nat (int (length xs) + k)) xs else take (nat k) xs)"

definition applyLimit :: "int option \<Rightarrow> 'a list \<Rightarrow> 'a list" where
  "applyLimit limit filtered =
     (case limit of
        None \<Rightarrow> filtered
      | Some k \<Rightarrow> if k \<noteq> 0 \<and> int (length filtered) > k then slice0 filtered k else filtered)"

text \<open>Lines 76 to 93 together: the text filter and the ranking run when the term and
  the search fields are both non-empty.\<close>

definition searchStage ::
  "host \<Rightarrow> string list \<Rightarrow> options \<Rightarrow> string \<Rightarrow> string list \<Rightarrow> item list \<Rightarrow> error + item list"
where
  "searchStage h searchFields opts debouncedSearchTerm searchTokens filtered =
     (if debouncedSearchTerm \<noteq> [] \<and> length searchFields > 0 then
        (case textFilter h searchFields (matchType opts) searchTokens filtered of
           Inl e \<Rightarrow> Inl e
         | Inr kept \<Rightarrow>
             if rankResults opts then rank h debouncedSearchTerm searchFields kept
             else Inr kept)
      else Inr filtered)"

definition evaluate ::
  "host \<Rightarrow> item list \<Rightarrow> string list \<Rightarrow> options \<Rightarrow> string \<Rightarrow> applied_filter list \<Rightarrow> string
   \<Rightarrow> real \<Rightarrow> real \<Rightarrow> error + search_result"
where
  "evaluate h data searchFields opts debouncedSearchTerm appliedFilters sortBy startTime endTime =
     (if debouncedSearchTerm = [] \<and> length appliedFilters = 0 then
        Inr \<lparr>results = data, resultCount = length data, searchTime = 0,
             stats = \<lparr>searched = False, termsCount = 0, tokensUsed = None\<rparr>\<rparr>
      else
        (let searchTokens = parseSearchQuery debouncedSearchTerm in
         case searchStage h searchFields opts debouncedSearchTerm searchTokens data of
           Inl e \<Rightarrow> Inl e
         | Inr filtered1 \<Rightarrow>
             (case sortResults h sortBy searchFields (applyFilters h appliedFilters filtered1) of
                Inl e \<Rightarrow> Inl e
              | Inr filtered3 \<Rightarrow>
                  (let filtered = applyLimit (maxResults opts) filtered3 in
                   Inr \<lparr>results = filtered, resultCount = length filtered,
                        searchTime = endTime - startTime,
                        stats = \<lparr>searched = True, termsCount = length searchTokens,
                                 tokensUsed = Some searchTokens\<rparr>\<rparr>))))"

section \<open>The search history\<close>

text \<open>
  \<^verbatim>\<open>addToSearchHistory\<close> tests the history of the render it was made in and updates
  the latest history \<open>prev\<close>; run one after the other, each call sees the history the
  one before left, and the two are the same list.
\<close>

definition addToSearchHistory :: "string \<Rightarrow> string list \<Rightarrow> string list \<Rightarrow> string list" where
  "addToSearchHistory debouncedSearchTerm searchHistory prev =
     (if debouncedSearchTerm \<noteq> [] \<and> debouncedSearchTerm \<notin> set searchHistory
      then debouncedSearchTerm # take 9 prev
      else prev)"

definition clearHistory :: "string list \<Rightarrow> string list" where
  "clearHistory prev = []"

datatype history_op = Add string | Clear

fun history_step :: "string list \<Rightarrow> history_op \<Rightarrow> string list" where
  "history_step hist (Add t) = addToSearchHistory t hist hist"
| "history_step hist Clear = clearHistory hist"

definition history_run :: "history_op list \<Rightarrow> string list" where
  "history_run ops = foldl history_step [] ops"

text \<open>The terms that the calls since the last clearing have added, the latest first.\<close>

fun added_step :: "string list \<times> string list \<Rightarrow> history_op \<Rightarrow> string list \<times> string list" where
  "added_step (hist, added) (Add t) =
     (history_step hist (Add t), if t \<noteq> [] \<and> t \<notin> set hist then t # added else added)"
| "added_step (hist, added) Clear = (history_step hist Clear, [])"

definition added_terms :: "history_op list \<Rightarrow> string list" where
  "added_terms ops = snd (foldl added_step ([], []) ops)"

section \<open>The evaluation on a store\<close>

text \<open>
  The same evaluation with the records and arrays in a store of addressed cells, as the
  code has them: the spread of \<^verbatim>\<open>data\<close>, \<^verbatim>\<open>filter\<close>, \<^verbatim>\<open>map\<close> and \<^verbatim>\<open>slice\<close>
  make a new array, the object literal with the spread of \<^verbatim>\<open>item\<close> makes a new object,
  and \<^verbatim>\<open>sort\<close> reorders the array it is called on. \<open>fresh\<close> is the next unused address.
\<close>

record heap =
  objects :: "nat \<rightharpoonup> item"
  arrays :: "nat \<rightharpoonup> nat list"
  fresh :: nat

text \<open>A store is well formed when every cell in use lies below \<open>fresh\<close> and every
  element of an array is the address of an object.\<close>

definition wf_heap :: "heap \<Rightarrow> bool" where
  "wf_heap hp =
     ((\<forall>a \<in> dom (objects hp) \<union> dom (arrays hp). a < fresh hp) \<and>
      (\<forall>xs \<in> ran (arrays hp). set xs \<subseteq> dom (objects hp)))"

definition readObject :: "heap \<Rightarrow> nat \<Rightarrow> item" where
  "readObject hp a = (case objects hp a of None \<Rightarrow> Map.empty | Some obj \<Rightarrow> obj)"

definition readArray :: "heap \<Rightarrow> nat \<Rightarrow> nat list" where
  "readArray hp r = (case arrays hp r of None \<Rightarrow> [] | Some xs \<Rightarrow> xs)"

definition newObject :: "item \<Rightarrow> heap \<Rightarrow> nat \<times> heap" where
  "newObject obj hp =
     (fresh hp, hp\<lparr>objects := (objects hp)(fresh hp \<mapsto> obj), fresh := Suc (fresh hp)\<rparr>)"

definition newArray :: "nat list \<Rightarrow> heap \<Rightarrow> nat \<times> heap" where
  "newArray xs hp =
     (fresh hp, hp\<lparr>arrays := (arrays hp)(fresh hp \<mapsto> xs), fresh := Suc (fresh hp)\<rparr>)"

definition writeArray :: "nat \<Rightarrow> nat list \<Rightarrow> heap \<Rightarrow> heap" where
  "writeArray r xs hp = hp\<lparr>arrays := (arrays hp)(r \<mapsto> xs)\<rparr>"

text \<open>\<^verbatim>\<open>filtered.filter(...)\<close> of the text search: a new array of the addresses whose
  records pass.\<close>

definition textFilter_heap ::
  "host \<Rightarrow> string list \<Rightarrow> string \<Rightarrow> string list \<Rightarrow> nat \<Rightarrow> heap \<Rightarrow> (error + nat) \<times> heap"
where
  "textFilter_heap h searchFields mt searchTokens filtered hp =
     (case filter_e (\<lambda>a. every_e (tokenMatches h searchFields mt (readObject hp a)) searchTokens)
             (readArray hp filtered) of
        Inl e \<Rightarrow> (Inl e, hp)
      | Inr kept \<Rightarrow> (case newArray kept hp of (r, hp') \<Rightarrow> (Inr r, hp')))"

text \<open>\<^verbatim>\<open>filtered.map(item => ({ ...item, _searchScore: ... }))\<close>: one new object for
  each element, then the new array; and the sort of that array in place.\<close>

fun copies_heap :: "host \<Rightarrow> string \<Rightarrow> string list \<Rightarrow> nat list \<Rightarrow> heap \<Rightarrow> (error + nat list) \<times> heap" where
  "copies_heap h term searchFields [] hp = (Inr [], hp)"
| "copies_heap h term searchFields (a # as) hp =
     (case withScore h term searchFields (readObject hp a) of
        Inl e \<Rightarrow> (Inl e, hp)
      | Inr obj \<Rightarrow>
          (case newObject obj hp of
             (c, hp') \<Rightarrow>
               (case copies_heap h term searchFields as hp' of
                  (Inl e, hp'') \<Rightarrow> (Inl e, hp'')
                | (Inr cs, hp'') \<Rightarrow> (Inr (c # cs), hp''))))"

definition rank_heap :: "host \<Rightarrow> string \<Rightarrow> string list \<Rightarrow> nat \<Rightarrow> heap \<Rightarrow> (error + nat) \<times> heap" where
  "rank_heap h term searchFields filtered hp =
     (case copies_heap h term searchFields (readArray hp filtered) hp of
        (Inl e, hp') \<Rightarrow> (Inl e, hp')
      | (Inr cs, hp') \<Rightarrow>
          (case newArray cs hp' of
             (r, hp'') \<Rightarrow>
               (Inr r,
                writeArray r (sort_key (\<lambda>a. - searchScore (readObject hp'' a)) (readArray hp'' r)) hp'')))"

definition applyFilters_heap :: "host \<Rightarrow> applied_filter list \<Rightarrow> nat \<Rightarrow> heap \<Rightarrow> nat \<times> heap" where
  "applyFilters_heap h appliedFilters filtered hp =
     (if length appliedFilters > 0
      then newArray
             (filter (\<lambda>a. list_all (passesFilter h (readObject hp a)) appliedFilters)
                (readArray hp filtered)) hp
      else (filtered, hp))"

definition sortResults_heap ::
  "host \<Rightarrow> string \<Rightarrow> string list \<Rightarrow> nat \<Rightarrow> heap \<Rightarrow> (error + nat) \<times> heap"
where
  "sortResults_heap h sortBy searchFields filtered hp =
     (if sortBy = ''name'' \<and> ''title'' \<in> set searchFields then
        (case sortWith h (\<lambda>a b. titleCompare h (readObject hp a) (readObject hp b))
                (readArray hp filtered) of
           Inl e \<Rightarrow> (Inl e, hp)
         | Inr xs \<Rightarrow> (Inr filtered, writeArray filtered xs hp))
      else if sortBy = ''recent'' then
        (case sortWith h (\<lambda>a b. recentCompare h (readObject hp a) (readObject hp b))
                (readArray hp filtered) of
           Inl e \<Rightarrow> (Inl e, hp)
         | Inr xs \<Rightarrow> (Inr filtered, writeArray filtered xs hp))
      else (Inr filtered, hp))"

definition applyLimit_heap :: "int option \<Rightarrow> nat \<Rightarrow> heap \<Rightarrow> nat \<times> heap" where
  "applyLimit_heap limit filtered hp =
     (case limit of
        None \<Rightarrow> (filtered, hp)
      | Some k \<Rightarrow>
          if k \<noteq> 0 \<and> int (length (readArray hp filtered)) > k
          then newArray (slice0 (readArray hp filtered) k) hp
          else (filtered, hp))"

record heap_result =
  results_ref :: nat
  resultCount_h :: nat
  searchTime_h :: real
  stats_h :: statistics

definition search_heap ::
  "host \<Rightarrow> string list \<Rightarrow> options \<Rightarrow> string \<Rightarrow> string list \<Rightarrow> nat \<Rightarrow> heap \<Rightarrow> (error + nat) \<times> heap"
where
  "search_heap h searchFields opts debouncedSearchTerm searchTokens filtered hp =
     (if debouncedSearchTerm \<noteq> [] \<and> length searchFields > 0 then
        (case textFilter_heap h searchFields (matchType opts) searchTokens filtered hp of
           (Inl e, hp') \<Rightarrow> (Inl e, hp')
         | (Inr r, hp') \<Rightarrow>
             if rankResults opts then rank_heap h debouncedSearchTerm searchFields r hp'
             else (Inr r, hp'))
      else (Inr filtered, hp))"

definition evaluate_heap ::
  "host \<Rightarrow> nat \<Rightarrow> string list \<Rightarrow> options \<Rightarrow> string \<Rightarrow> applied_filter list \<Rightarrow> string
   \<Rightarrow> real \<Rightarrow> real \<Rightarrow> heap \<Rightarrow> (error + heap_result) \<times> heap"
where
  "evaluate_heap h data searchFields opts debouncedSearchTerm appliedFilters sortBy
     startTime endTime hp =
     (if debouncedSearchTerm = [] \<and> length appliedFilters = 0 then
        (Inr \<lparr>results_ref = data, resultCount_h = length (readArray hp data), searchTime_h = 0,
              stats_h = \<lparr>searched = False, termsCount = 0, tokensUsed = None\<rparr>\<rparr>, hp)
      else
        (case newArray (readArray hp data) hp of
           (filtered0, hp0) \<Rightarrow>
             (let searchTokens = parseSearchQuery debouncedSearchTerm in
              case search_heap h searchFields opts debouncedSearchTerm searchTokens filtered0 hp0 of
                (Inl e, hp1) \<Rightarrow> (Inl e, hp1)
              | (Inr filtered1, hp1) \<Rightarrow>
                  (case applyFilters_heap h appliedFilters filtered1 hp1 of
                     (filtered2, hp2) \<Rightarrow>
                       (case sortResults_heap h sortBy searchFields filtered2 hp2 of
                          (Inl e, hp3) \<Rightarrow> (Inl e, hp3)
                        | (Inr filtered3, hp3) \<Rightarrow>
                            (case applyLimit_heap (maxResults opts) filtered3 hp3 of
                               (filtered, hp4) \<Rightarrow>
                                 (Inr \<lparr>results_ref = filtered,
                                       resultCount_h = length (readArray hp4 filtered),
                                       searchTime_h = endTime - startTime,
                                       stats_h = \<lparr>searched = True,
                                                  termsCount = length searchTokens,
                                                  tokensUsed = Some searchTokens\<rparr>\<rparr>,
                                  hp4)))))))"

section \<open>A host to run the definitions on\<close>

text \<open>
  Regular expressions of the host language, for the patterns built from: characters
  other than the syntax characters, escaped syntax characters, the dot, \<^verbatim>\<open>^\<close>,
  \<^verbatim>\<open>$\<close>, \<^verbatim>\<open>\b\<close>, \<^verbatim>\<open>\B\<close>, groups \<^verbatim>\<open>( )\<close> and \<^verbatim>\<open>(?: )\<close>, alternation and
  the quantifiers \<^verbatim>\<open>*\<close>, \<^verbatim>\<open>+\<close>, \<^verbatim>\<open>?\<close> with their lazy forms. With no
  back-reference and no look-around, \<^verbatim>\<open>test\<close> asks only whether some substring
  matches, so a pattern is read as the set of end positions it reaches from a start
  position. The flags are those of \<^verbatim>\<open>wordMatch\<close>: characters compare by their
  canonical (upper case) form, the dot matches all but a line terminator, and
  \<^verbatim>\<open>^\<close> and \<^verbatim>\<open>$\<close> match at the two ends of the text only.
\<close>

datatype rx =
  RChar char | RAny | RWordB | RNotWordB | RBol | REol | REmpty
| RSeq rx rx | RAlt rx rx | RStar rx

text \<open>The canonical form of a character under the flag \<^verbatim>\<open>i\<close> is its upper case,
  as a code point: the micro sign and the y with diaeresis have theirs outside the
  code units of the model, and the sharp s has none of one character.\<close>

definition lowerCaseCode :: "nat \<Rightarrow> bool" where
  "lowerCaseCode n = ((97 \<le> n \<and> n \<le> 122) \<or> (224 \<le> n \<and> n \<le> 254 \<and> n \<noteq> 247))"

definition canonicalCode :: "nat \<Rightarrow> nat" where
  "canonicalCode n =
     (if lowerCaseCode n then n - 32
      else if n = 181 then 924
      else if n = 255 then 376
      else n)"

definition canonicalize :: "char \<Rightarrow> nat" where
  "canonicalize c = canonicalCode (of_char c)"

definition isWordChar :: "char \<Rightarrow> bool" where
  "isWordChar c =
     (let n = (of_char c :: nat) in
      (97 \<le> n \<and> n \<le> 122) \<or> (65 \<le> n \<and> n \<le> 90) \<or> (48 \<le> n \<and> n \<le> 57) \<or> n = 95)"

definition isLineTerminator :: "char \<Rightarrow> bool" where
  "isLineTerminator c = (c = CHR 0x0A \<or> c = CHR 0x0D)"

definition atWordBoundary :: "string \<Rightarrow> nat \<Rightarrow> bool" where
  "atWordBoundary s e =
     ((0 < e \<and> e \<le> length s \<and> isWordChar (s ! (e - 1))) \<noteq> (e < length s \<and> isWordChar (s ! e)))"

fun closure :: "(nat \<Rightarrow> nat list) \<Rightarrow> nat \<Rightarrow> nat list \<Rightarrow> nat list" where
  "closure step 0 js = js"
| "closure step (Suc n) js =
     (let new = filter (\<lambda>k. k \<notin> set js) (remdups (concat (map step js)))
      in if new = [] then js else closure step n (js @ new))"

fun ends :: "rx \<Rightarrow> string \<Rightarrow> nat \<Rightarrow> nat list" where
  "ends (RChar c) s i = (if i < length s \<and> canonicalize (s ! i) = canonicalize c then [Suc i] else [])"
| "ends RAny s i = (if i < length s \<and> \<not> isLineTerminator (s ! i) then [Suc i] else [])"
| "ends RWordB s i = (if atWordBoundary s i then [i] else [])"
| "ends RNotWordB s i = (if atWordBoundary s i then [] else [i])"
| "ends RBol s i = (if i = 0 then [i] else [])"
| "ends REol s i = (if i = length s then [i] else [])"
| "ends REmpty s i = [i]"
| "ends (RSeq a b) s i = concat (map (ends b s) (ends a s i))"
| "ends (RAlt a b) s i = ends a s i @ ends b s i"
| "ends (RStar a) s i = closure (ends a s) (length s) [i]"

definition rx_test :: "rx \<Rightarrow> string \<Rightarrow> bool" where
  "rx_test r s = list_ex (\<lambda>i. ends r s i \<noteq> []) [0..<Suc (length s)]"

datatype term_kind = Atom | Assertion | Quantified | Lazy

record frame =
  alts :: "rx list"
  cur :: "(rx \<times> term_kind) list"

definition alternative :: "(rx \<times> term_kind) list \<Rightarrow> rx" where
  "alternative ts = foldr RSeq (map fst (rev ts)) REmpty"

definition disjunction :: "frame \<Rightarrow> rx" where
  "disjunction f = foldr RAlt (alts f) (alternative (cur f))"

definition emptyFrame :: frame where
  "emptyFrame = \<lparr>alts = [], cur = []\<rparr>"

definition pushTerm :: "rx \<Rightarrow> term_kind \<Rightarrow> frame \<Rightarrow> frame" where
  "pushTerm r k f = f\<lparr>cur := (r, k) # cur f\<rparr>"

text \<open>
  The parser reads the pattern from left to right with a stack of the groups that are
  open. \<open>Invalid\<close> is a pattern the constructor rejects with a SyntaxError: a quantifier
  with nothing before it, after an assertion or after another quantifier, a closing
  parenthesis with no group open, a group left open at the end, a backslash at the end.
  \<open>Outside\<close> is a pattern that uses a construct the model does not cover (a character
  class, a brace, another escape, another kind of group).
\<close>

datatype pattern = Pattern rx | Invalid | Outside

definition isSyntaxCharacter :: "char \<Rightarrow> bool" where
  "isSyntaxCharacter c = (c \<in> set (CHR 0x5C # ''^$.*+?()[]{}|/''))"

definition quantify :: "char \<Rightarrow> rx \<Rightarrow> rx" where
  "quantify q r =
     (if q = CHR ''*'' then RStar r
      else if q = CHR ''+'' then RSeq r (RStar r)
      else RAlt r REmpty)"

fun parsePattern :: "frame list \<Rightarrow> frame \<Rightarrow> string \<Rightarrow> pattern" where
  "parsePattern stack f [] = (if stack = [] then Pattern (disjunction f) else Invalid)"
| "parsePattern stack f (c # cs) =
     (if c = CHR 0x5C then
        (case cs of
           [] \<Rightarrow> Invalid
         | d # ds \<Rightarrow>
             if d = CHR ''b'' then parsePattern stack (pushTerm RWordB Assertion f) ds
             else if d = CHR ''B'' then parsePattern stack (pushTerm RNotWordB Assertion f) ds
             else if isSyntaxCharacter d then parsePattern stack (pushTerm (RChar d) Atom f) ds
             else Outside)
      else if c = CHR ''('' then
        (case cs of
           d # ds \<Rightarrow>
             if d = CHR ''?'' then
               (case ds of
                  e # es \<Rightarrow> if e = CHR '':'' then parsePattern (f # stack) emptyFrame es else Outside
                | [] \<Rightarrow> Outside)
             else parsePattern (f # stack) emptyFrame cs
         | [] \<Rightarrow> parsePattern (f # stack) emptyFrame cs)
      else if c = CHR '')'' then
        (case stack of
           [] \<Rightarrow> Invalid
         | g # stack' \<Rightarrow> parsePattern stack' (pushTerm (disjunction f) Atom g) cs)
      else if c = CHR ''|'' then
        parsePattern stack \<lparr>alts = alts f @ [alternative (cur f)], cur = []\<rparr> cs
      else if c = CHR ''*'' \<or> c = CHR ''+'' \<or> c = CHR ''?'' then
        (case cur f of
           [] \<Rightarrow> Invalid
         | (r, k) # ts \<Rightarrow>
             if k = Atom then parsePattern stack (f\<lparr>cur := (quantify c r, Quantified) # ts\<rparr>) cs
             else if k = Quantified \<and> c = CHR ''?'' then parsePattern stack (f\<lparr>cur := (r, Lazy) # ts\<rparr>) cs
             else Invalid)
      else if c = CHR ''.'' then parsePattern stack (pushTerm RAny Atom f) cs
      else if c = CHR ''^'' then parsePattern stack (pushTerm RBol Assertion f) cs
      else if c = CHR ''$'' then parsePattern stack (pushTerm REol Assertion f) cs
      else if c \<in> set ''[]{}'' then Outside
      else parsePattern stack (pushTerm (RChar c) Atom f) cs)"

definition fragmentTest :: "string \<Rightarrow> string \<Rightarrow> bool option option" where
  "fragmentTest p s =
     (case parsePattern [] emptyFrame p of
        Pattern r \<Rightarrow> Some (Some (rx_test r s))
      | Invalid \<Rightarrow> Some None
      | Outside \<Rightarrow> None)"


text \<open>
  The sample host: regular expressions as above (it rejects the patterns outside the
  model as well, which a real host need not; the evaluations below use none of them), a
  stable insertion sort, strings compared by code units, dates read from numbers only
  and printed as the day number since the epoch.
\<close>

definition sample_regexpTest :: "string \<Rightarrow> string \<Rightarrow> bool option" where
  "sample_regexpTest p s = (case fragmentTest p s of Some r \<Rightarrow> r | None \<Rightarrow> None)"

fun insert_pos :: "(nat \<Rightarrow> nat \<Rightarrow> error + int option) \<Rightarrow> nat \<Rightarrow> nat list \<Rightarrow> error + nat list" where
  "insert_pos cmp x [] = Inr [x]"
| "insert_pos cmp x (y # ys) =
     (case cmp x y of
        Inl e \<Rightarrow> Inl e
      | Inr v \<Rightarrow>
          if (case v of None \<Rightarrow> 0 | Some n \<Rightarrow> n) \<le> 0 then Inr (x # y # ys)
          else (case insert_pos cmp x ys of Inl e \<Rightarrow> Inl e | Inr zs \<Rightarrow> Inr (y # zs)))"

fun insertion_sort :: "(nat \<Rightarrow> nat \<Rightarrow> error + int option) \<Rightarrow> nat list \<Rightarrow> error + nat list" where
  "insertion_sort cmp [] = Inr []"
| "insertion_sort cmp (x # xs) =
     (case insertion_sort cmp xs of
        Inl e \<Rightarrow> Inl e
      | Inr ys \<Rightarrow> insert_pos cmp x ys)"

definition sample_arraySort :: "(nat \<Rightarrow> nat \<Rightarrow> error + int option) \<Rightarrow> nat \<Rightarrow> error + nat list" where
  "sample_arraySort cmp n = insertion_sort cmp [0..<n]"

function decimal :: "nat \<Rightarrow> string" where
  "decimal n =
     (if n < 10 then [char_of (48 + n)]
      else decimal (n div 10) @ [char_of (48 + n mod 10)])"
  by pat_completeness auto
termination
  by (relation "measure id") auto

declare decimal.simps [simp del]

definition numberToString :: "int \<Rightarrow> string" where
  "numberToString n = (if n < 0 then CHR ''-'' # decimal (nat (- n)) else decimal (nat n))"

fun jsToString :: "jsval \<Rightarrow> string" where
  "jsToString JUndefined = ''undefined''"
| "jsToString JNull = ''null''"
| "jsToString (JBool b) = (if b then ''true'' else ''false'')"
| "jsToString (JNum n) = numberToString n"
| "jsToString (JStr s) = s"

fun compareUnits :: "string \<Rightarrow> string \<Rightarrow> int" where
  "compareUnits [] [] = 0"
| "compareUnits [] (d # ds) = - 1"
| "compareUnits (c # cs) [] = 1"
| "compareUnits (c # cs) (d # ds) =
     (if (of_char c :: nat) < of_char d then - 1
      else if (of_char d :: nat) < of_char c then 1
      else compareUnits cs ds)"

fun sample_dateTime :: "jsval \<Rightarrow> int option" where
  "sample_dateTime (JNum n) = Some n"
| "sample_dateTime JNull = Some 0"
| "sample_dateTime (JBool b) = Some (if b then 1 else 0)"
| "sample_dateTime JUndefined = None"
| "sample_dateTime (JStr s) = None"

definition sample_dateString :: "jsval \<Rightarrow> string" where
  "sample_dateString v =
     (case sample_dateTime v of
        None \<Rightarrow> ''Invalid Date''
      | Some t \<Rightarrow> ''day '' @ numberToString (t div 86400000))"

definition sample_host :: host where
  "sample_host =
     \<lparr>regexpTest = sample_regexpTest,
      arraySort = sample_arraySort,
      localeCompare = (\<lambda>s v. compareUnits s (jsToString v)),
      dateTime = sample_dateTime,
      dateString = sample_dateString\<rparr>"

section \<open>The properties in the words of the specification\<close>

text \<open>
  The award of one field in the scorer, as the specification words it: the highest tier
  that applies to the field's string value, nothing for a field that holds no string.
\<close>

definition tierAward :: "host \<Rightarrow> string \<Rightarrow> string \<Rightarrow> int" where
  "tierAward h v term =
     (if toLowerCase v = toLowerCase term then 100
      else if startsWith (toLowerCase v) (toLowerCase term) then 75
      else if str_includes (toLowerCase v) (toLowerCase term) then 50
      else if wordMatch h v term = Inr True then 25
      else 0)"

definition fieldAward :: "host \<Rightarrow> item \<Rightarrow> string \<Rightarrow> string \<Rightarrow> int" where
  "fieldAward h obj term field =
     (case obj field of
        Some (JStr v) \<Rightarrow> if v = [] then 0 else tierAward h v term
      | _ \<Rightarrow> 0)"

text \<open>
  A token matches a record when one of the search fields holds a non-empty string that
  the strategy accepts: a score above one half for fuzzy, a true answer otherwise.
\<close>

definition strategyAccepts :: "host \<Rightarrow> string \<Rightarrow> string \<Rightarrow> string \<Rightarrow> bool" where
  "strategyAccepts h mt v token =
     (if mt = ''exact'' then exactMatch v token
      else if mt = ''word'' then wordMatch h v token = Inr True
      else if mt = ''prefix'' then prefixMatch v token
      else if mt = ''fuzzy'' then (case fuzzyMatch h v token of Inr s \<Rightarrow> s > 1 / 2 | Inl e \<Rightarrow> False)
      else substringMatch v token)"

definition matchesSomeField :: "host \<Rightarrow> string list \<Rightarrow> string \<Rightarrow> item \<Rightarrow> string \<Rightarrow> bool" where
  "matchesSomeField h flds mt obj token =
     list_ex (\<lambda>field. case obj field of
                         Some (JStr v) \<Rightarrow> v \<noteq> [] \<and> strategyAccepts h mt v token
                       | _ \<Rightarrow> False) flds"

text \<open>The names that an object literal inherits a member for.\<close>

definition inheritedMembers :: "string list" where
  "inheritedMembers = [''constructor'', ''toString'', ''isPrototypeOf''] @ throwingMembers"

text \<open>The term makes a pattern that the host's constructor accepts.\<close>

definition compiles :: "host \<Rightarrow> string \<Rightarrow> bool" where
  "compiles h term = (\<forall>text. regexpTest h (wordPattern term) text \<noteq> None)"

text \<open>
  What an evaluation on the store leaves alone: every cell below \<open>base\<close> holds after it
  what it held before, and no address is given out twice.
\<close>

definition preserves :: "nat \<Rightarrow> heap \<Rightarrow> heap \<Rightarrow> bool" where
  "preserves base hp hp' =
     (fresh hp \<le> fresh hp' \<and>
      (\<forall>a<base. objects hp' a = objects hp a \<and> arrays hp' a = arrays hp a))"

text \<open>The records that an array of the store holds, and a result on the store read as
  a result of the evaluation on values.\<close>

definition contents :: "heap \<Rightarrow> nat \<Rightarrow> item list" where
  "contents hp r = map (readObject hp) (readArray hp r)"

definition readResult :: "heap \<Rightarrow> heap_result \<Rightarrow> search_result" where
  "readResult hp res =
     \<lparr>results = contents hp (results_ref res), resultCount = resultCount_h res,
      searchTime = searchTime_h res, stats = stats_h res\<rparr>"

text \<open>A term in which no character is a syntax character of regular expressions.\<close>

definition literal :: "string \<Rightarrow> bool" where
  "literal term = list_all (\<lambda>c. \<not> isSyntaxCharacter c) term"

section \<open>The tokenizer follows the scan of the specification\<close>

lemma parse_loop_scan:
  "i \<le> length query \<Longrightarrow>
   flush (parse_loop query i tokens current inQuotes) = scan (drop i query) tokens current inQuotes"
proof (induction query i tokens current inQuotes rule: parse_loop.induct)
  case (1 query i tokens current inQuotes)
  show ?case
  proof (cases "i < length query")
    case False
    with "1.prems" have "drop i query = []" by simp
    with False show ?thesis
      by (subst parse_loop.simps) (simp add: flush_def)
  next
    case True
    then have d: "drop i query = query ! i # drop (Suc i) query"
      by (simp add: Cons_nth_drop_Suc)
    from True have le: "Suc i \<le> length query" by simp
    have unf: "parse_loop query i tokens current inQuotes =
       (if query ! i = CHR 0x22 then parse_loop query (Suc i) tokens current (\<not> inQuotes)
         else if query ! i = CHR 0x20 \<and> \<not> inQuotes then
           (if current \<noteq> [] then parse_loop query (Suc i) (tokens @ [current]) [] inQuotes
            else parse_loop query (Suc i) tokens current inQuotes)
         else parse_loop query (Suc i) tokens (current @ [query ! i]) inQuotes)"
      using True by (subst parse_loop.simps) (simp add: Let_def)
    consider (quote) "query ! i = CHR 0x22"
      | (close) "query ! i \<noteq> CHR 0x22" "query ! i = CHR 0x20" "\<not> inQuotes" "current \<noteq> []"
      | (skip) "query ! i \<noteq> CHR 0x22" "query ! i = CHR 0x20" "\<not> inQuotes" "current = []"
      | (app) "query ! i \<noteq> CHR 0x22" "\<not> (query ! i = CHR 0x20 \<and> \<not> inQuotes)"
      by blast
    then show ?thesis
    proof cases
      case quote
      with "1.IH"(1) [OF True refl _ le] show ?thesis
        unfolding unf by (simp add: d)
    next
      case close
      with "1.IH"(2) [OF True refl _ _ _ le] show ?thesis
        unfolding unf by (simp add: d)
    next
      case skip
      with "1.IH"(3) [OF True refl _ _ _ le] show ?thesis
        unfolding unf by (simp add: d)
    next
      case app
      with "1.IH"(4) [OF True refl _ _ le] show ?thesis
        unfolding unf by (auto simp: d)
    qed
  qed
qed

lemma scan_no_empty:
  "[] \<notin> set tokens \<Longrightarrow> [] \<notin> set (scan cs tokens current inQuotes)"
  by (induction cs tokens current inQuotes rule: scan.induct) auto

lemma scan_no_quote:
  "CHR 0x22 \<notin> set (concat tokens) \<Longrightarrow> CHR 0x22 \<notin> set current \<Longrightarrow>
   CHR 0x22 \<notin> set (concat (scan cs tokens current inQuotes))"
  by (induction cs tokens current inQuotes rule: scan.induct) auto

lemma parseSearchQuery_scan: "parseSearchQuery query = scan query [] [] False"
proof -
  have f: "flush (parse_loop query 0 [] [] False) = scan query [] [] False"
    using parse_loop_scan [of 0 query "[]" "[]" False] by simp
  have "filter (\<lambda>token. length token > 0) (scan query [] [] False) = scan query [] [] False"
    using scan_no_empty [of "[]" query "[]" False] by (auto simp: filter_id_conv)
  moreover have "parseSearchQuery query =
      filter (\<lambda>token. length token > 0) (flush (parse_loop query 0 [] [] False))"
    by (simp add: parseSearchQuery_def flush_def split: prod.splits)
  ultimately show ?thesis using f by simp
qed

text \<open>
  Claim C3. For every query, \<^verbatim>\<open>parseSearchQuery\<close> returns what the left-to-right scan
  of the specification returns (\<open>scan\<close>: a double quote flips the inside-quotes flag
  and is dropped, a space outside quotes closes the accumulating token when it is not
  empty, any other character is appended, and the last token is flushed when it is not
  empty); no token is empty and no token holds a double quote. The three examples of the
  specification evaluate as it says.
\<close>

theorem parseSearchQuery_scans:
  "parseSearchQuery query = scan query [] [] False
   \<and> [] \<notin> set (parseSearchQuery query)
   \<and> CHR 0x22 \<notin> set (concat (parseSearchQuery query))
   \<and> parseSearchQuery (''urgent '' @ [CHR 0x22] @ ''fix bug'' @ [CHR 0x22] @ '' now'')
       = [''urgent'', ''fix bug'', ''now'']
   \<and> parseSearchQuery [] = []
   \<and> parseSearchQuery ''  a  '' = [''a'']"
proof -
  have e1: "scan (''urgent '' @ [CHR 0x22] @ ''fix bug'' @ [CHR 0x22] @ '' now'') [] [] False
       = [''urgent'', ''fix bug'', ''now'']" by simp
  have e2: "scan ''  a  '' [] [] False = [''a'']" by simp
  show ?thesis
    using scan_no_empty [of "[]" query "[]" False] scan_no_quote [of "[]" "[]" query False] e1 e2
    by (simp add: parseSearchQuery_scan)
qed

section \<open>The short circuit on an empty query\<close>

text \<open>
  Claim C8. With an empty debounced term and no applied filter, the evaluation returns
  the records it was given, in their order, with \<open>resultCount\<close> their number, a search
  time of 0 and \<open>searched\<close> false, on every host and whatever the fields, the options,
  the sort order and the clock are.
\<close>

theorem evaluate_short_circuit:
  "evaluate h data searchFields opts [] [] sortBy startTime endTime =
     Inr \<lparr>results = data, resultCount = length data, searchTime = 0,
          stats = \<lparr>searched = False, termsCount = 0, tokensUsed = None\<rparr>\<rparr>"
  by (simp add: evaluate_def)

section \<open>The search history\<close>

lemma history_run_snoc: "history_run (ops @ [x]) = history_step (history_run ops) x"
  by (simp add: history_run_def)

lemma added_fst: "fst (foldl added_step ([], []) ops) = history_run ops"
proof (induction ops rule: rev_induct)
  case Nil
  show ?case by (simp add: history_run_def)
next
  case (snoc x xs)
  obtain hist added where p: "foldl added_step ([], []) xs = (hist, added)"
    by (cases "foldl added_step ([], []) xs")
  with snoc have "hist = history_run xs" by simp
  with p show ?case
    by (cases x) (simp_all add: history_run_snoc)
qed

lemma added_terms_snoc:
  "added_terms (ops @ [x]) =
     (case x of
        Add t \<Rightarrow> if t \<noteq> [] \<and> t \<notin> set (history_run ops) then t # added_terms ops else added_terms ops
      | Clear \<Rightarrow> [])"
proof -
  obtain hist added where p: "foldl added_step ([], []) ops = (hist, added)"
    by (cases "foldl added_step ([], []) ops")
  with added_fst [of ops] have "hist = history_run ops" by simp
  with p show ?thesis
    by (cases x) (simp_all add: added_terms_def)
qed

lemma history_inv:
  "length (history_run ops) \<le> 10 \<and> [] \<notin> set (history_run ops) \<and> distinct (history_run ops)
   \<and> history_run ops = take 10 (added_terms ops)"
proof (induction ops rule: rev_induct)
  case Nil
  show ?case by (simp add: history_run_def added_terms_def)
next
  case (snoc x xs)
  show ?case
  proof (cases x)
    case Clear
    then show ?thesis
      by (simp add: history_run_snoc added_terms_snoc clearHistory_def)
  next
    case (Add t)
    have sub: "set (take 9 (history_run xs)) \<subseteq> set (history_run xs)"
      by (rule set_take_subset)
    have tk: "take 9 (take 10 (added_terms xs)) = take 9 (added_terms xs)"
      by simp
    have d9: "distinct (take 10 (added_terms xs)) \<Longrightarrow> distinct (take 9 (added_terms xs))"
      using distinct_take [of "take 10 (added_terms xs)" 9] by simp
    from snoc sub tk d9 Add show ?thesis
      by (auto simp: history_run_snoc added_terms_snoc addToSearchHistory_def
            dest: in_set_takeD)
  qed
qed

text \<open>
  Claim C10. After any sequence of calls of \<^verbatim>\<open>addToSearchHistory\<close> and
  \<^verbatim>\<open>clearHistory\<close> run one after the other from the empty history, the history has
  at most 10 entries, none of them empty, and it is the first ten of the terms added
  since the last clearing, the latest first; a call of \<^verbatim>\<open>addToSearchHistory\<close> with
  a term that is empty or already in the history leaves the history as it is.
\<close>

theorem history_invariant:
  "length (history_run ops) \<le> 10
   \<and> [] \<notin> set (history_run ops)
   \<and> history_run ops = take 10 (added_terms ops)
   \<and> (t = [] \<or> t \<in> set (history_run ops) \<longrightarrow> history_run (ops @ [Add t]) = history_run ops)"
  using history_inv [of ops]
  by (auto simp: history_run_snoc addToSearchHistory_def)

theorem history_invariant_witness:
  "''a'' \<in> set (history_run [Add ''a'', Add ''b''])
   \<and> history_run ([Add ''a'', Add ''b''] @ [Add ''a'']) = [''b'', ''a'']
   \<and> added_terms [Add ''a'', Add ''b''] = [''b'', ''a'']"
  using history_invariant [of "[Add ''a'', Add ''b'']" "''a''"]
  by (simp add: history_run_def addToSearchHistory_def added_terms_def)

section \<open>The scorer on the examples of the specification\<close>

lemma lower_task: "toLowerCase ''task'' = ''task''" by code_simp
lemma lower_tasked: "toLowerCase ''tasked'' = ''tasked''" by code_simp
lemma lower_today: "toLowerCase ''my task today'' = ''my task today''" by code_simp
lemma tasked_starts: "startsWith ''tasked'' ''task''" by code_simp
lemma today_not_starts: "\<not> startsWith ''my task today'' ''task''" by code_simp
lemma today_includes: "str_includes ''my task today'' ''task''" by code_simp

text \<open>
  Claim C5, as amended. On every host the scorer gives 100 for the title \<^verbatim>\<open>task\<close>, 75
  for \<^verbatim>\<open>tasked\<close> and 50 for \<^verbatim>\<open>my task today\<close> against the query \<^verbatim>\<open>task\<close>: the
  last title contains the query, and the contains tier comes before the whole-word tier.
\<close>

theorem score_examples:
  "scoreSearchResult h [''title'' \<mapsto> JStr ''task''] ''task'' [''title''] = Inr 100
   \<and> scoreSearchResult h [''title'' \<mapsto> JStr ''tasked''] ''task'' [''title''] = Inr 75
   \<and> scoreSearchResult h [''title'' \<mapsto> JStr ''my task today''] ''task'' [''title''] = Inr 50"
  by (simp add: scoreSearchResult_def lower_task lower_tasked lower_today tasked_starts
        today_not_starts today_includes)

text \<open>
  Claim C5 as stated gives 25 for the third example; the code gives 50.
\<close>

theorem score_whole_word_counterexample:
  "scoreSearchResult sample_host [''title'' \<mapsto> JStr ''my task today''] ''task'' [''title'']
     = Inr 50
   \<and> scoreSearchResult sample_host [''title'' \<mapsto> JStr ''my task today''] ''task'' [''title'']
     \<noteq> Inr 25"
  by code_simp

section \<open>The limit on the number of results\<close>

lemma applyLimit_pos: "0 < k \<Longrightarrow> applyLimit (Some k) xs = take (nat k) xs"
  by (auto simp: applyLimit_def slice0_def)

lemma applyLimit_zero: "applyLimit (Some 0) xs = xs"
  by (simp add: applyLimit_def)

lemma applyLimit_none: "applyLimit None xs = xs"
  by (simp add: applyLimit_def)

text \<open>
  Claim C6, as amended. For a limit \<open>k\<close> of at least 1 and an evaluation that is not
  short-circuited (the term is not empty or a filter is applied), the evaluation with
  \<open>maxResults = k\<close> is the evaluation with no limit cut to its first \<open>k\<close> results, with
  \<open>resultCount\<close> the minimum of \<open>k\<close> and the unlimited count, and it throws when the
  unlimited one throws. With \<open>k = 0\<close>, or with an empty term and no filter, the limit is
  not applied and the two evaluations are equal.
\<close>

theorem maxResults_prefix:
  "(0 < k \<and> (debouncedSearchTerm \<noteq> [] \<or> appliedFilters \<noteq> []) \<longrightarrow>
      evaluate h data searchFields (opts\<lparr>maxResults := Some k\<rparr>) debouncedSearchTerm
        appliedFilters sortBy startTime endTime =
      map_sum id
        (\<lambda>r. r\<lparr>results := take (nat k) (results r), resultCount := min (nat k) (resultCount r)\<rparr>)
        (evaluate h data searchFields (opts\<lparr>maxResults := None\<rparr>) debouncedSearchTerm
           appliedFilters sortBy startTime endTime))
   \<and> (k = 0 \<or> (debouncedSearchTerm = [] \<and> appliedFilters = []) \<longrightarrow>
      evaluate h data searchFields (opts\<lparr>maxResults := Some k\<rparr>) debouncedSearchTerm
        appliedFilters sortBy startTime endTime =
      evaluate h data searchFields (opts\<lparr>maxResults := None\<rparr>) debouncedSearchTerm
        appliedFilters sortBy startTime endTime)"
proof -
  let ?P = "searchStage h searchFields opts debouncedSearchTerm
              (parseSearchQuery debouncedSearchTerm) data"
  have st: "searchStage h searchFields (opts\<lparr>maxResults := m\<rparr>) debouncedSearchTerm
              (parseSearchQuery debouncedSearchTerm) data = ?P" for m
    by (simp add: searchStage_def split: sum.splits)
  show ?thesis
  proof (cases ?P)
    case (Inl e)
    then show ?thesis
      by (simp add: evaluate_def st Let_def)
  next
    case (Inr filtered1)
    show ?thesis
    proof (cases "sortResults h sortBy searchFields (applyFilters h appliedFilters filtered1)")
      case (Inl e)
      with Inr show ?thesis
        by (simp add: evaluate_def st Let_def)
    next
      case sorted: (Inr filtered3)
      have "0 < k \<Longrightarrow> applyLimit (Some k) filtered3 = take (nat k) filtered3"
        by (rule applyLimit_pos)
      moreover have "k = 0 \<Longrightarrow> applyLimit (Some k) filtered3 = filtered3"
        by (simp add: applyLimit_zero)
      ultimately show ?thesis
        using Inr sorted
        by (auto simp: evaluate_def st Let_def applyLimit_none min.commute)
    qed
  qed
qed

theorem maxResults_prefix_witness:
  "(0 :: int) < 1 \<and> ''a'' \<noteq> []
   \<and> map_sum id (\<lambda>r. map (\<lambda>obj. getProp obj ''title'') (results r))
       (evaluate sample_host [[''title'' \<mapsto> JStr ''ab''], [''title'' \<mapsto> JStr ''a'']] [''title'']
          \<lparr>matchType = ''substring'', rankResults = True, maxResults = None\<rparr>
          ''a'' [] ''relevance'' 0 0) = Inr [JStr ''a'', JStr ''ab'']
   \<and> map_sum id (\<lambda>r. map (\<lambda>obj. getProp obj ''title'') (results r))
       (evaluate sample_host [[''title'' \<mapsto> JStr ''ab''], [''title'' \<mapsto> JStr ''a'']] [''title'']
          \<lparr>matchType = ''substring'', rankResults = True, maxResults = Some 1\<rparr>
          ''a'' [] ''relevance'' 0 0) = Inr [JStr ''a'']"
proof -
  let ?data = "[[''title'' \<mapsto> JStr ''ab''], [''title'' \<mapsto> JStr ''a'']] :: item list"
  let ?opts = "\<lparr>matchType = ''substring'', rankResults = True, maxResults = None\<rparr>"
  let ?ev = "\<lambda>opts. evaluate sample_host ?data [''title''] opts ''a'' [] ''relevance'' 0 0"
  have unb: "map_sum id (\<lambda>r. map (\<lambda>obj. getProp obj ''title'') (results r)) (?ev ?opts)
       = Inr [JStr ''a'', JStr ''ab'']"
    by code_simp
  have "?ev (?opts\<lparr>maxResults := Some 1\<rparr>) =
      map_sum id
        (\<lambda>r. r\<lparr>results := take (nat 1) (results r), resultCount := min (nat 1) (resultCount r)\<rparr>)
        (?ev (?opts\<lparr>maxResults := None\<rparr>))"
    using maxResults_prefix [of 1 "''a''" "[]" sample_host ?data "[''title'']" ?opts
        "''relevance''" 0 0]
    by simp
  then have "?ev \<lparr>matchType = ''substring'', rankResults = True, maxResults = Some 1\<rparr> =
      map_sum id
        (\<lambda>r. r\<lparr>results := take 1 (results r), resultCount := min 1 (resultCount r)\<rparr>)
        (?ev ?opts)"
    by simp
  with unb show ?thesis
    by (cases "?ev ?opts") (auto simp: take_map [symmetric])
qed

text \<open>
  Claim C6 as stated fails for \<open>k = 0\<close> (one record matches, and the count is 1, not 0)
  and in the short circuit (two records, limit 1, and the count is 2, not 1).
\<close>

theorem maxResults_counterexample:
  "map_sum id resultCount
     (evaluate sample_host [[''title'' \<mapsto> JStr ''a'']] [''title'']
        \<lparr>matchType = ''substring'', rankResults = True, maxResults = None\<rparr>
        ''a'' [] ''relevance'' 0 0) = Inr 1
   \<and> map_sum id resultCount
     (evaluate sample_host [[''title'' \<mapsto> JStr ''a'']] [''title'']
        \<lparr>matchType = ''substring'', rankResults = True, maxResults = Some 0\<rparr>
        ''a'' [] ''relevance'' 0 0) = Inr 1
   \<and> min (0 :: nat) 1 \<noteq> 1
   \<and> map_sum id resultCount
     (evaluate sample_host [[''title'' \<mapsto> JStr ''a''], [''title'' \<mapsto> JStr ''b'']] [''title'']
        \<lparr>matchType = ''substring'', rankResults = True, maxResults = None\<rparr>
        [] [] ''relevance'' 0 0) = Inr 2
   \<and> map_sum id resultCount
     (evaluate sample_host [[''title'' \<mapsto> JStr ''a''], [''title'' \<mapsto> JStr ''b'']] [''title'']
        \<lparr>matchType = ''substring'', rankResults = True, maxResults = Some 1\<rparr>
        [] [] ''relevance'' 0 0) = Inr 2
   \<and> min (1 :: nat) 2 \<noteq> 2"
  by code_simp

section \<open>The choice of the match function\<close>

lemma matchFunction_unknown:
  "mt \<notin> set [''exact'', ''substring'', ''word'', ''fuzzy'', ''prefix''] \<Longrightarrow>
   mt \<notin> set inheritedMembers \<Longrightarrow> matchFunction mt = Substring"
  by (simp add: matchFunction_def inheritedMembers_def)

lemma field_loop_not_fuzzy:
  "mt \<noteq> ''fuzzy'' \<Longrightarrow>
   field_loop h mt mf obj term flds = field_loop h ''substring'' mf obj term flds"
  by (induction flds) (auto split: option.splits jsval.splits sum.splits)

text \<open>
  For a match type that is none of the five strategy names and not the name of a member
  that an object literal inherits, \<^verbatim>\<open>multiFieldSearch\<close> is what it is for
  \<^verbatim>\<open>substring\<close>.
\<close>

lemma unknown_matchType_substring:
  assumes "mt \<notin> set [''exact'', ''substring'', ''word'', ''fuzzy'', ''prefix'']"
    and "mt \<notin> set inheritedMembers"
  shows "multiFieldSearch h obj term flds mt = multiFieldSearch h obj term flds ''substring''"
proof -
  from assms have mf: "matchFunction mt = Substring" by (rule matchFunction_unknown)
  have ms: "matchFunction ''substring'' = Substring" by (simp add: matchFunction_def)
  from assms(1) have "mt \<noteq> ''fuzzy''" by auto
  then show ?thesis
    by (simp add: multiFieldSearch_def mf ms field_loop_not_fuzzy [of mt])
qed

lemma unknown_matchType_substring_example:
  "''regex'' \<notin> set [''exact'', ''substring'', ''word'', ''fuzzy'', ''prefix'']
   \<and> ''regex'' \<notin> set inheritedMembers
   \<and> multiFieldSearch h [''title'' \<mapsto> JStr ''abc''] ''b'' [''title''] ''regex''
     = multiFieldSearch h [''title'' \<mapsto> JStr ''abc''] ''b'' [''title''] ''substring''"
  using unknown_matchType_substring [of "''regex''" h "[''title'' \<mapsto> JStr ''abc'']" "''b''" "[''title'']"]
  by (simp add: inheritedMembers_def throwingMembers_def)

lemma lower_abc: "toLowerCase ''abc'' = ''abc''" by code_simp
lemma lower_zzz: "toLowerCase ''zzz'' = ''zzz''" by code_simp
lemma abc_no_zzz: "\<not> str_includes ''abc'' ''zzz''" by code_simp

text \<open>
  Claim C7, at the inputs where the code departs from it. The match types
  \<^verbatim>\<open>constructor\<close> and \<^verbatim>\<open>valueOf\<close> are outside the five strategy names, and on
  every host the search of the record with title \<^verbatim>\<open>abc\<close> for the term \<^verbatim>\<open>zzz\<close>
  reports a match in the title with \<^verbatim>\<open>constructor\<close> and throws a TypeError with
  \<^verbatim>\<open>valueOf\<close>, where \<^verbatim>\<open>substring\<close> reports no match.
\<close>

theorem inherited_matchType_diverges:
  "multiFieldSearch h [''title'' \<mapsto> JStr ''abc''] ''zzz'' [''title''] ''constructor''
     = Inr (Some \<lparr>mfield = ''title'', mscore = None\<rparr>)
   \<and> multiFieldSearch h [''title'' \<mapsto> JStr ''abc''] ''zzz'' [''title''] ''substring''
     = Inr None
   \<and> multiFieldSearch h [''title'' \<mapsto> JStr ''abc''] ''zzz'' [''title''] ''valueOf''
     = Inl TypeError"
  by (simp add: multiFieldSearch_def matchFunction_def throwingMembers_def substringMatch_def
        lower_abc lower_zzz abc_no_zzz)

section \<open>The scorer: one tier for each field, summed over the fields\<close>

lemma score_loop_step:
  "obj field = Some (JStr v) \<Longrightarrow> v \<noteq> [] \<Longrightarrow>
   score_loop h obj term (toLowerCase term) (field # rest) score = Inr n \<Longrightarrow>
   score_loop h obj term (toLowerCase term) rest (score + tierAward h v term) = Inr n"
  by (auto simp: tierAward_def Let_def split: if_splits sum.splits bool.splits)

lemma score_loop_skip:
  "fieldAward h obj term field = 0 \<Longrightarrow> (\<nexists>v. obj field = Some (JStr v) \<and> v \<noteq> []) \<Longrightarrow>
   score_loop h obj term lowerTerm (field # rest) score =
   score_loop h obj term lowerTerm rest score"
  by (auto split: option.splits jsval.splits)

lemma score_loop_sum:
  "score_loop h obj term (toLowerCase term) flds score = Inr n \<Longrightarrow>
   n = score + sum_list (map (fieldAward h obj term) flds)"
proof (induction flds arbitrary: score)
  case Nil
  then show ?case by simp
next
  case (Cons field rest)
  show ?case
  proof (cases "\<exists>v. obj field = Some (JStr v) \<and> v \<noteq> []")
    case True
    then obtain v where v: "obj field = Some (JStr v)" "v \<noteq> []" by blast
    then have fa: "fieldAward h obj term field = tierAward h v term"
      by (simp add: fieldAward_def)
    from score_loop_step [OF v Cons.prems]
    have "n = score + tierAward h v term + sum_list (map (fieldAward h obj term) rest)"
      by (rule Cons.IH)
    with fa show ?thesis by simp
  next
    case False
    then have fa: "fieldAward h obj term field = 0"
      by (auto simp: fieldAward_def split: option.splits jsval.splits)
    from Cons.prems score_loop_skip [OF fa False]
    have "score_loop h obj term (toLowerCase term) rest score = Inr n" by simp
    then have "n = score + sum_list (map (fieldAward h obj term) rest)"
      by (rule Cons.IH)
    with fa show ?thesis by simp
  qed
qed

text \<open>
  When the scorer returns, the score is 0 for the empty query and otherwise the sum over
  the fields of the award of the highest tier that applies to the field.
\<close>

lemma scoreSearchResult_additive:
  "scoreSearchResult h obj term flds = Inr n \<Longrightarrow>
   n = (if term = [] then 0 else sum_list (map (fieldAward h obj term) flds))"
  using score_loop_sum [of h obj "term" flds 0 n]
  by (auto simp: scoreSearchResult_def split: if_splits)

lemma wordMatch_compiles: "compiles h term \<Longrightarrow> \<exists>b. wordMatch h v term = Inr b"
  by (auto simp: compiles_def wordMatch_def split: option.splits)

lemma score_loop_total:
  "compiles h term \<Longrightarrow> \<exists>n. score_loop h obj term lowerTerm flds score = Inr n"
proof (induction flds arbitrary: score)
  case Nil
  show ?case by simp
next
  case (Cons field rest)
  from Cons.prems obtain b where b: "\<And>v. \<exists>b. wordMatch h v term = Inr b"
    using wordMatch_compiles by blast
  show ?case
  proof (cases "obj field")
    case None
    with Cons show ?thesis by simp
  next
    case (Some val)
    show ?thesis
    proof (cases val)
      case (JStr v)
      from b obtain c where "wordMatch h v term = Inr c" by blast
      with Cons Some JStr show ?thesis
        by (cases c) (simp_all add: Let_def)
    qed (use Cons Some in simp_all)
  qed
qed

text \<open>
  The scorer returns for every query that makes a pattern the host accepts, and for the
  empty query.
\<close>

lemma scoreSearchResult_total:
  "compiles h term \<Longrightarrow> \<exists>n. scoreSearchResult h obj term flds = Inr n"
  using score_loop_total [of h "term" obj "toLowerCase term" flds 0]
  by (simp add: scoreSearchResult_def)

lemma scoreSearchResult_empty_query: "scoreSearchResult h obj [] flds = Inr 0"
  by (simp add: scoreSearchResult_def)

lemma compiles_task: "compiles sample_host ''task''"
proof -
  have "parsePattern [] emptyFrame (wordPattern ''task'') \<noteq> Invalid
        \<and> parsePattern [] emptyFrame (wordPattern ''task'') \<noteq> Outside"
    by code_simp
  then show ?thesis
    by (cases "parsePattern [] emptyFrame (wordPattern ''task'')")
      (simp_all add: compiles_def sample_host_def sample_regexpTest_def fragmentTest_def)
qed

lemma scoreSearchResult_total_example:
  "\<exists>n. scoreSearchResult sample_host obj ''task'' flds = Inr n"
  using scoreSearchResult_total [OF compiles_task] .

text \<open>
  Claim C2, at the input where the code departs from it. For the record with title
  \<^verbatim>\<open>x\<close>, the query \<^verbatim>\<open>(\<close> and the field list \<^verbatim>\<open>title\<close> no tier applies, and the
  scorer does not return 0: the query is pasted into a regular expression that the
  constructor rejects, and the scorer throws a SyntaxError. With substring matching and
  ranking, the evaluation of that query throws as well, on a record that passes the text
  filter by its title and has a description without the parenthesis.
\<close>

theorem score_throws_on_open_parenthesis:
  "fragmentTest (wordPattern ''('') ''x'' = Some None
   \<and> scoreSearchResult sample_host [''title'' \<mapsto> JStr ''x''] ''('' [''title''] = Inl SyntaxError
   \<and> map_sum id resultCount
       (evaluate sample_host
          [[''title'' \<mapsto> JStr ''call (mom)'', ''description'' \<mapsto> JStr ''tonight'']]
          [''title'', ''description'']
          \<lparr>matchType = ''substring'', rankResults = True, maxResults = None\<rparr>
          ''('' [] ''relevance'' 0 0) = Inl SyntaxError"
  by code_simp

section \<open>The fuzzy score and subsequences\<close>

lemma fuzzy_loop_subseq:
  "fuzzy_loop lowerText lowerTerm i matches termIndex = (m, j) \<Longrightarrow> j = length lowerTerm \<Longrightarrow>
   subseq (drop termIndex lowerTerm) (drop i lowerText)"
proof (induction lowerText lowerTerm i matches termIndex rule: fuzzy_loop.induct)
  case (1 lowerText lowerTerm i matches termIndex)
  show ?case
  proof (cases "i < length lowerText \<and> termIndex < length lowerTerm")
    case False
    with "1.prems" have "(matches, termIndex) = (m, j)"
      by (subst (asm) fuzzy_loop.simps) simp
    with "1.prems" show ?thesis by simp
  next
    case True
    then have dT: "drop i lowerText = lowerText ! i # drop (Suc i) lowerText"
      and dS: "drop termIndex lowerTerm = lowerTerm ! termIndex # drop (Suc termIndex) lowerTerm"
      by (simp_all add: Cons_nth_drop_Suc)
    show ?thesis
    proof (cases "lowerText ! i = lowerTerm ! termIndex")
      case eq: True
      with True "1.prems"
      have "fuzzy_loop lowerText lowerTerm (Suc i) (Suc matches) (Suc termIndex) = (m, j)"
        by (subst (asm) fuzzy_loop.simps) simp
      with "1.IH"(1) [OF True eq] "1.prems" 
      have "subseq (drop (Suc termIndex) lowerTerm) (drop (Suc i) lowerText)" by simp
      with eq show ?thesis by (simp add: dT dS)
    next
      case ne: False
      with True "1.prems"
      have "fuzzy_loop lowerText lowerTerm (Suc i) matches termIndex = (m, j)"
        by (subst (asm) fuzzy_loop.simps) simp
      with "1.IH"(2) [OF True ne] "1.prems"
      have "subseq (drop termIndex lowerTerm) (drop (Suc i) lowerText)" by simp
      then have "subseq (drop termIndex lowerTerm) (lowerText ! i # drop (Suc i) lowerText)"
        by (rule list_emb_Cons)
      then show ?thesis by (simp add: dT)
    qed
  qed
qed

text \<open>
  A positive fuzzy score comes from the whole-word test, or else the characters of the
  lower-cased term occur in the lower-cased text in their order.
\<close>

lemma fuzzyMatch_positive:
  assumes "fuzzyMatch h text term = Inr s" and "0 < s"
  shows "wordMatch h text term = Inr True \<or> subseq (toLowerCase term) (toLowerCase text)"
proof (cases "toLowerCase text = toLowerCase term")
  case True
  then show ?thesis by simp
next
  case ne: False
  show ?thesis
  proof (cases "str_includes (toLowerCase text) (toLowerCase term)")
    case True
    then show ?thesis by (simp add: str_includes_def sublist_imp_subseq)
  next
    case ni: False
    show ?thesis
    proof (cases "wordMatch h text term")
      case (Inl e)
      with assms ne ni show ?thesis by (simp add: fuzzyMatch_def Let_def)
    next
      case (Inr b)
      show ?thesis
      proof (cases b)
        case True
        with Inr show ?thesis by simp
      next
        case False
        obtain m j where l: "fuzzy_loop (toLowerCase text) (toLowerCase term) 0 0 0 = (m, j)"
          by (cases "fuzzy_loop (toLowerCase text) (toLowerCase term) 0 0 0")
        with assms ne ni Inr False have "j = length (toLowerCase term)"
          by (auto simp: fuzzyMatch_def Let_def split: if_splits)
        with fuzzy_loop_subseq [OF l] show ?thesis by simp
      qed
    qed
  qed
qed

lemma fuzzyMatch_positive_example:
  "fuzzyMatch sample_host ''abcd'' ''bd'' = Inr (1 / 2)
   \<and> (0 :: rat) < 1 / 2
   \<and> subseq (toLowerCase ''bd'') (toLowerCase ''abcd'')"
  by code_simp

text \<open>
  Claim C4, at the input where the code departs from it. For the text \<^verbatim>\<open>a\<close> and the
  term \<^verbatim>\<open>.\<close> the fuzzy score is 0.8, from the whole-word test in which the dot stands
  for any character, and the dot does not occur in the text.
\<close>

theorem fuzzy_dot_matches_any_letter:
  "fragmentTest (wordPattern ''.'') ''a'' = Some (Some True)
   \<and> fuzzyMatch sample_host ''a'' ''.'' = Inr (8 / 10)
   \<and> \<not> subseq (toLowerCase ''.'') (toLowerCase ''a'')"
  by code_simp

section \<open>The text filter: every token must match\<close>

lemma every_e_True: "every_e p xs = Inr True \<Longrightarrow> \<forall>x\<in>set xs. p x = Inr True"
  by (induction xs) (auto split: sum.splits if_splits)

lemma every_e_False: "every_e p xs = Inr False \<Longrightarrow> \<exists>x\<in>set xs. p x = Inr False"
  by (induction xs) (auto split: sum.splits if_splits)

lemma every_e_total: "\<forall>x\<in>set xs. \<exists>b. p x = Inr b \<Longrightarrow> \<exists>b. every_e p xs = Inr b"
  by (induction xs) (auto split: sum.splits)

lemma filter_e_Inr:
  "filter_e p xs = Inr ys \<Longrightarrow>
   ys = filter (\<lambda>x. p x = Inr True) xs \<and> (\<forall>x\<in>set xs. \<exists>b. p x = Inr b)"
  by (induction xs arbitrary: ys) (auto split: sum.splits if_splits)

lemma filter_e_total: "\<forall>x\<in>set xs. \<exists>b. p x = Inr b \<Longrightarrow> \<exists>ys. filter_e p xs = Inr ys"
  by (induction xs) (auto split: sum.splits)

lemma matchFunction_known:
  "matchFunction ''exact'' = Exact" "matchFunction ''substring'' = Substring"
  "matchFunction ''word'' = Word" "matchFunction ''fuzzy'' = Fuzzy"
  "matchFunction ''prefix'' = Prefix"
  by (simp_all add: matchFunction_def)

lemma matchFunction_other:
  "mt \<noteq> ''exact'' \<Longrightarrow> mt \<noteq> ''substring'' \<Longrightarrow> mt \<noteq> ''word'' \<Longrightarrow> mt \<noteq> ''fuzzy'' \<Longrightarrow>
   mt \<noteq> ''prefix'' \<Longrightarrow> mt \<notin> set inheritedMembers \<Longrightarrow> matchFunction mt = Substring"
  by (simp add: matchFunction_def inheritedMembers_def)

lemma matchFunction_cases:
  assumes "mt \<notin> set inheritedMembers"
  obtains "mt = ''exact''" "matchFunction mt = Exact"
  | "mt = ''substring''" "matchFunction mt = Substring"
  | "mt = ''word''" "matchFunction mt = Word"
  | "mt = ''fuzzy''" "matchFunction mt = Fuzzy"
  | "mt = ''prefix''" "matchFunction mt = Prefix"
  | "mt \<noteq> ''exact''" "mt \<noteq> ''substring''" "mt \<noteq> ''word''" "mt \<noteq> ''fuzzy''"
      "mt \<noteq> ''prefix''" "matchFunction mt = Substring"
proof (cases "mt = ''exact''")
  case True
  with that(1) show thesis by (simp add: matchFunction_known)
next
  case n1: False
  show thesis
  proof (cases "mt = ''substring''")
    case True
    with that(2) show thesis by (simp add: matchFunction_known)
  next
    case n2: False
    show thesis
    proof (cases "mt = ''word''")
      case True
      with that(3) show thesis by (simp add: matchFunction_known)
    next
      case n3: False
      show thesis
      proof (cases "mt = ''fuzzy''")
        case True
        with that(4) show thesis by (simp add: matchFunction_known)
      next
        case n4: False
        show thesis
        proof (cases "mt = ''prefix''")
          case True
          with that(5) show thesis by (simp add: matchFunction_known)
        next
          case n5: False
          from matchFunction_other [OF n1 n2 n3 n4 n5 assms]
          show thesis by (rule that(6) [OF n1 n2 n3 n4 n5])
        qed
      qed
    qed
  qed
qed

lemma callMatcher_accepts:
  assumes "mt \<notin> set inheritedMembers"
    and "callMatcher h (matchFunction mt) v token = Inr r"
  shows "(if mt = ''fuzzy'' then exceedsHalf r else isTruthy r) = strategyAccepts h mt v token"
  using assms(1)
proof (cases rule: matchFunction_cases)
  case 1
  with assms(2) show ?thesis by (auto simp: strategyAccepts_def)
next
  case 2
  with assms(2) show ?thesis by (auto simp: strategyAccepts_def)
next
  case 3
  with assms(2) show ?thesis
    by (cases "wordMatch h v token") (auto simp: strategyAccepts_def)
next
  case 4
  with assms(2) show ?thesis
    by (cases "fuzzyMatch h v token") (auto simp: strategyAccepts_def)
next
  case 5
  with assms(2) show ?thesis by (auto simp: strategyAccepts_def)
next
  case 6
  with assms(2) show ?thesis by (auto simp: strategyAccepts_def)
qed

lemma field_loop_matches:
  assumes "mt \<notin> set inheritedMembers"
  shows "field_loop h mt (matchFunction mt) obj token flds = Inr res \<Longrightarrow>
         (res \<noteq> None) = matchesSomeField h flds mt obj token"
proof (induction flds)
  case Nil
  then show ?case by (auto simp: matchesSomeField_def)
next
  case (Cons field rest)
  show ?case
  proof (cases "\<exists>v. obj field = Some (JStr v) \<and> v \<noteq> []")
    case False
    then have "field_loop h mt (matchFunction mt) obj token (field # rest) =
               field_loop h mt (matchFunction mt) obj token rest"
      by (auto split: option.splits jsval.splits)
    with Cons False show ?thesis
      by (auto simp: matchesSomeField_def split: option.splits jsval.splits)
  next
    case True
    then obtain v where v: "obj field = Some (JStr v)" "v \<noteq> []" by blast
    show ?thesis
    proof (cases "callMatcher h (matchFunction mt) v token")
      case (Inl e)
      with v Cons.prems show ?thesis by (simp split: if_splits)
    next
      case (Inr r)
      note acc = callMatcher_accepts [OF assms Inr]
      show ?thesis
      proof (cases "strategyAccepts h mt v token")
        case True
        with acc v Inr Cons.prems show ?thesis
          by (auto simp: matchesSomeField_def split: if_splits)
      next
        case False
        with acc v Inr Cons.prems
        have "field_loop h mt (matchFunction mt) obj token rest = Inr res"
          by (auto split: if_splits)
        then have "(res \<noteq> None) = matchesSomeField h rest mt obj token" by (rule Cons.IH)
        with False v show ?thesis by (simp add: matchesSomeField_def)
      qed
    qed
  qed
qed

lemma tokenMatches_Inr:
  assumes "mt \<notin> set inheritedMembers" "token \<noteq> []" "flds \<noteq> []"
    and "tokenMatches h flds mt obj token = Inr b"
  shows "b = matchesSomeField h flds mt obj token"
proof -
  from assms(2,3,4) obtain res where
    "field_loop h mt (matchFunction mt) obj token flds = Inr res" "b = (res \<noteq> None)"
    by (cases "field_loop h mt (matchFunction mt) obj token flds")
      (auto simp: tokenMatches_def multiFieldSearch_def)
  with field_loop_matches [OF assms(1)] show ?thesis by blast
qed

text \<open>
  When the text filter returns, it keeps exactly the records that every token matches in
  some search field under the match type (for a match type that is not the name of an
  inherited member, non-empty tokens and a non-empty list of fields).
\<close>

lemma textFilter_conjunctive:
  assumes mt: "mt \<notin> set inheritedMembers" and ne: "[] \<notin> set tokens" and fl: "flds \<noteq> []"
    and res: "textFilter h flds mt tokens data = Inr res"
  shows "res = filter (\<lambda>obj. \<forall>t\<in>set tokens. matchesSomeField h flds mt obj t) data"
proof -
  let ?p = "\<lambda>obj. every_e (tokenMatches h flds mt obj) tokens"
  from res have r: "res = filter (\<lambda>obj. ?p obj = Inr True) data"
    and tot: "\<forall>obj\<in>set data. \<exists>b. ?p obj = Inr b"
    using filter_e_Inr [of ?p data res] by (simp_all add: textFilter_def)
  have "(?p obj = Inr True) = (\<forall>t\<in>set tokens. matchesSomeField h flds mt obj t)"
    if "obj \<in> set data" for obj
  proof -
    from tot that obtain b where b: "?p obj = Inr b" by blast
    show ?thesis
    proof (cases b)
      case True
      with b have "?p obj = Inr True" by simp
      then have all: "\<forall>t\<in>set tokens. tokenMatches h flds mt obj t = Inr True"
        by (rule every_e_True)
      have "matchesSomeField h flds mt obj t" if t: "t \<in> set tokens" for t
      proof -
        from t ne have "t \<noteq> []" by auto
        from tokenMatches_Inr [OF mt this fl] all t show ?thesis by blast
      qed
      with b True show ?thesis by simp
    next
      case False
      with b have "?p obj = Inr False" by simp
      then obtain t where t: "t \<in> set tokens" "tokenMatches h flds mt obj t = Inr False"
        using every_e_False [of "tokenMatches h flds mt obj" tokens] by blast
      with ne have "t \<noteq> []" by auto
      from tokenMatches_Inr [OF mt this fl t(2)]
      have "\<not> matchesSomeField h flds mt obj t" by simp
      with t b False show ?thesis by auto
    qed
  qed
  with r show ?thesis by (simp cong: filter_cong)
qed

lemma callMatcher_total:
  assumes "mt \<notin> set inheritedMembers"
    and "mt = ''word'' \<or> mt = ''fuzzy'' \<longrightarrow> compiles h token"
  shows "\<exists>r. callMatcher h (matchFunction mt) v token = Inr r"
  using assms(1)
proof (cases rule: matchFunction_cases)
  case 3
  with assms(2) show ?thesis
    by (auto simp: compiles_def wordMatch_def split: option.splits)
next
  case 4
  with assms(2) have "regexpTest h (wordPattern token) v \<noteq> None" by (simp add: compiles_def)
  then obtain b where "wordMatch h v token = Inr b" by (auto simp: wordMatch_def)
  with 4 show ?thesis
    by (cases b) (auto simp: fuzzyMatch_def Let_def split: prod.splits)
qed auto

lemma field_loop_total:
  assumes "mt \<notin> set inheritedMembers"
    and "mt = ''word'' \<or> mt = ''fuzzy'' \<longrightarrow> compiles h token"
  shows "\<exists>res. field_loop h mt (matchFunction mt) obj token flds = Inr res"
proof (induction flds)
  case Nil
  show ?case by simp
next
  case (Cons field rest)
  show ?case
  proof (cases "\<exists>v. obj field = Some (JStr v) \<and> v \<noteq> []")
    case False
    then have "field_loop h mt (matchFunction mt) obj token (field # rest) =
               field_loop h mt (matchFunction mt) obj token rest"
      by (auto split: option.splits jsval.splits)
    with Cons show ?thesis by simp
  next
    case True
    then obtain v where v: "obj field = Some (JStr v)" "v \<noteq> []" by blast
    from callMatcher_total [OF assms] obtain r where
      "callMatcher h (matchFunction mt) v token = Inr r" by blast
    with v Cons show ?thesis by auto
  qed
qed

text \<open>
  The text filter returns for the match types exact, substring and prefix and for the
  unknown ones, and for word and fuzzy when every token makes a pattern that the host
  accepts.
\<close>

lemma textFilter_total:
  assumes "mt \<notin> set inheritedMembers"
    and "mt = ''word'' \<or> mt = ''fuzzy'' \<longrightarrow> (\<forall>t\<in>set tokens. compiles h t)"
  shows "\<exists>res. textFilter h flds mt tokens data = Inr res"
proof -
  have "\<exists>b. tokenMatches h flds mt obj t = Inr b" if "t \<in> set tokens" for obj t
  proof -
    from assms(2) that have "mt = ''word'' \<or> mt = ''fuzzy'' \<longrightarrow> compiles h t" by blast
    from field_loop_total [OF assms(1) this] obtain res where
      "field_loop h mt (matchFunction mt) obj t flds = Inr res" by blast
    then show ?thesis
      by (auto simp: tokenMatches_def multiFieldSearch_def)
  qed
  then have "\<exists>b. every_e (tokenMatches h flds mt obj) tokens = Inr b" for obj
    by (intro every_e_total) blast
  then show ?thesis
    unfolding textFilter_def by (intro filter_e_total) blast
qed

lemma parseSearchQuery_no_empty: "[] \<notin> set (parseSearchQuery query)"
  using scan_no_empty [of "[]" query "[]" False] by (simp add: parseSearchQuery_scan)

text \<open>
  With no ranking, no applied filter, no sort by name or date and no limit, the results
  of an evaluation that returns are the records that every token of the term matches,
  in the order of the input. The example is the one of the specification.
\<close>

lemma evaluate_text_filter:
  assumes "debouncedSearchTerm \<noteq> []" "flds \<noteq> []" "matchType opts \<notin> set inheritedMembers"
    and "\<not> rankResults opts" "maxResults opts = None" "sortBy \<noteq> ''name''" "sortBy \<noteq> ''recent''"
    and "evaluate h data flds opts debouncedSearchTerm [] sortBy startTime endTime = Inr res"
  shows "results res =
         filter (\<lambda>obj. \<forall>t\<in>set (parseSearchQuery debouncedSearchTerm).
                          matchesSomeField h flds (matchType opts) obj t) data"
proof -
  let ?tokens = "parseSearchQuery debouncedSearchTerm"
  show ?thesis
  proof (cases "textFilter h flds (matchType opts) ?tokens data")
    case (Inl e)
    with assms show ?thesis
      by (simp add: evaluate_def searchStage_def Let_def)
  next
    case (Inr kept)
    from textFilter_conjunctive [OF assms(3) parseSearchQuery_no_empty assms(2) Inr]
    have "kept = filter (\<lambda>obj. \<forall>t\<in>set ?tokens. matchesSomeField h flds (matchType opts) obj t) data" .
    with assms Inr show ?thesis
      by (auto simp: evaluate_def searchStage_def Let_def sortResults_def applyFilters_def
            applyLimit_def)
  qed
qed

lemma evaluate_text_filter_example:
  "map_sum id (\<lambda>r. map (\<lambda>obj. getProp obj ''title'') (results r))
     (evaluate sample_host
        [[''title'' \<mapsto> JStr ''Buy milk''], [''title'' \<mapsto> JStr ''Fix bug'']] [''title'']
        \<lparr>matchType = ''substring'', rankResults = False, maxResults = None\<rparr>
        ''bug'' [] ''relevance'' 0 0) = Inr [JStr ''Fix bug'']"
  by code_simp

text \<open>
  Claim C1, at the input where the code departs from it. With the match type fuzzy and
  the term \<^verbatim>\<open>(\<close>, the record with title \<^verbatim>\<open>(\<close> matches the only token (its title
  equals it), and it is in no result: on the record with title \<^verbatim>\<open>x\<close> the token is
  pasted into a regular expression that the constructor rejects, and the filter and the
  evaluation throw a SyntaxError.
\<close>

theorem text_filter_throws_on_matching_record:
  "fragmentTest (wordPattern ''('') ''x'' = Some None
   \<and> tokenMatches sample_host [''title''] ''fuzzy'' [''title'' \<mapsto> JStr ''(''] ''('' = Inr True
   \<and> matchesSomeField sample_host [''title''] ''fuzzy'' [''title'' \<mapsto> JStr ''(''] ''(''
   \<and> parseSearchQuery ''('' = [''('']
   \<and> map_sum id (\<lambda>xs. length xs)
       (textFilter sample_host [''title''] ''fuzzy'' (parseSearchQuery ''('')
          [[''title'' \<mapsto> JStr ''(''], [''title'' \<mapsto> JStr ''x'']]) = Inl SyntaxError
   \<and> map_sum id resultCount
       (evaluate sample_host [[''title'' \<mapsto> JStr ''(''], [''title'' \<mapsto> JStr ''x'']] [''title'']
          \<lparr>matchType = ''fuzzy'', rankResults = False, maxResults = None\<rparr>
          ''('' [] ''relevance'' 0 0) = Inl SyntaxError"
  by code_simp

section \<open>Terms without syntax characters, on the sample host\<close>

lemma parsePattern_literal:
  "\<not> isSyntaxCharacter c \<Longrightarrow>
   parsePattern stack f (c # cs) = parsePattern stack (pushTerm (RChar c) Atom f) cs"
  by (simp add: isSyntaxCharacter_def)

lemma parsePattern_literals:
  "\<forall>c\<in>set term. \<not> isSyntaxCharacter c \<Longrightarrow>
   parsePattern stack f (term @ rest) =
   parsePattern stack (foldl (\<lambda>g c. pushTerm (RChar c) Atom g) f term) rest"
proof (induction "term" arbitrary: f)
  case Nil
  show ?case by simp
next
  case (Cons c cs)
  then have "\<not> isSyntaxCharacter c" by simp
  from parsePattern_literal [OF this] Cons show ?case by simp
qed

lemma parsePattern_word_boundary:
  "parsePattern stack f (CHR 0x5C # CHR ''b'' # cs) =
   parsePattern stack (pushTerm RWordB Assertion f) cs"
  by simp

lemma of_char_lt_256: "(of_char c :: nat) < 256"
  by (metis of_char_mod_256 mod_less_divisor zero_less_numeral)

lemma lower_upper_code:
  "lowerCaseCode n \<Longrightarrow>
   upperCaseCode (n - 32) \<and> (n - 32) + 32 = n \<and> \<not> upperCaseCode n \<and> n - 32 < 256"
  unfolding lowerCaseCode_def upperCaseCode_def by arith

lemma canonicalCode_lower: "lowerCaseCode n \<Longrightarrow> canonicalCode n = n - 32"
  by (simp add: canonicalCode_def)

lemma canonicalCode_other:
  "\<not> lowerCaseCode n \<Longrightarrow> n < 256 \<Longrightarrow>
   canonicalCode n = n \<or> (256 \<le> canonicalCode n \<and> (n = 181 \<or> n = 255))"
  by (auto simp: canonicalCode_def)

lemma canonicalCode_inj_other:
  "\<not> lowerCaseCode n \<Longrightarrow> \<not> lowerCaseCode m \<Longrightarrow> n < 256 \<Longrightarrow> m < 256 \<Longrightarrow>
   canonicalCode n = canonicalCode m \<Longrightarrow> n = m"
  by (auto simp: canonicalCode_def split: if_splits)

lemma canonicalCode_cases:
  assumes "canonicalCode n = canonicalCode m" "n < 256" "m < 256"
  shows "n = m \<or> (upperCaseCode m \<and> m + 32 = n \<and> \<not> upperCaseCode n)
         \<or> (upperCaseCode n \<and> n + 32 = m \<and> \<not> upperCaseCode m)"
proof (cases "lowerCaseCode n")
  case ln: True
  show ?thesis
  proof (cases "lowerCaseCode m")
    case True
    with ln assms have "n - 32 = m - 32" by (simp add: canonicalCode_lower)
    moreover from ln True have "32 \<le> n" "32 \<le> m" unfolding lowerCaseCode_def by arith+
    ultimately have "n = m" by arith
    then show ?thesis by simp
  next
    case False
    from ln assms have c: "canonicalCode m = n - 32" by (simp add: canonicalCode_lower)
    with lower_upper_code [OF ln] canonicalCode_other [OF False assms(3)]
    have "m = n - 32" by auto
    with lower_upper_code [OF ln] show ?thesis by auto
  qed
next
  case nn: False
  show ?thesis
  proof (cases "lowerCaseCode m")
    case True
    from True assms have c: "canonicalCode n = m - 32" by (simp add: canonicalCode_lower)
    with lower_upper_code [OF True] canonicalCode_other [OF nn assms(2)]
    have "n = m - 32" by auto
    with lower_upper_code [OF True] show ?thesis by auto
  next
    case False
    from canonicalCode_inj_other [OF nn False assms(2,3,1)] show ?thesis by simp
  qed
qed

lemma canonicalize_lower:
  assumes "canonicalize a = canonicalize b"
  shows "toLowerCaseChar a = toLowerCaseChar b"
proof -
  define na nb where "na = (of_char a :: nat)" and "nb = (of_char b :: nat)"
  have la: "na < 256" and lb: "nb < 256"
    unfolding na_def nb_def by (rule of_char_lt_256)+
  have a: "a = char_of na" and b: "b = char_of nb"
    by (simp_all add: na_def nb_def)
  have lowa: "toLowerCaseChar a = (if upperCaseCode na then char_of (na + 32) else a)"
    and lowb: "toLowerCaseChar b = (if upperCaseCode nb then char_of (nb + 32) else b)"
    by (simp_all add: toLowerCaseChar_def na_def nb_def)
  from assms have "canonicalCode na = canonicalCode nb"
    by (simp add: canonicalize_def na_def nb_def)
  from canonicalCode_cases [OF this la lb] show ?thesis
  proof (elim disjE conjE)
    assume "na = nb"
    with a b show ?thesis by simp
  next
    assume h: "upperCaseCode nb" "nb + 32 = na" "\<not> upperCaseCode na"
    from lowa h have "toLowerCaseChar a = a" by simp
    moreover from lowb h have "toLowerCaseChar b = char_of na" by simp
    ultimately show ?thesis using a by simp
  next
    assume h: "upperCaseCode na" "na + 32 = nb" "\<not> upperCaseCode nb"
    from lowb h have "toLowerCaseChar b = b" by simp
    moreover from lowa h have "toLowerCaseChar a = char_of nb" by simp
    ultimately show ?thesis using b by simp
  qed
qed

lemma frame_of_literals:
  "cur (foldl (\<lambda>g c. pushTerm (RChar c) Atom g) f term) =
     rev (map (\<lambda>c. (RChar c, Atom)) term) @ cur f
   \<and> alts (foldl (\<lambda>g c. pushTerm (RChar c) Atom g) f term) = alts f"
  by (induction "term" arbitrary: f) (simp_all add: pushTerm_def)

lemma literal_pattern:
  assumes "literal term"
  shows "parsePattern [] emptyFrame (wordPattern term) =
         Pattern (RSeq RWordB (foldr RSeq (map RChar term) (RSeq RWordB REmpty)))"
proof -
  from assms have lit: "\<forall>c\<in>set term. \<not> isSyntaxCharacter c"
    by (simp add: literal_def list_all_iff)
  let ?f = "foldl (\<lambda>g c. pushTerm (RChar c) Atom g) (pushTerm RWordB Assertion emptyFrame) term"
  have "parsePattern [] emptyFrame (wordPattern term) =
        parsePattern [] (pushTerm RWordB Assertion emptyFrame) (term @ [CHR 0x5C, CHR ''b''])"
    by (simp add: wordPattern_def)
  also have "\<dots> = parsePattern [] ?f [CHR 0x5C, CHR ''b'']"
    using lit by (rule parsePattern_literals)
  also have "\<dots> = Pattern (disjunction (pushTerm RWordB Assertion ?f))"
    by simp
  also have "disjunction (pushTerm RWordB Assertion ?f) =
             RSeq RWordB (foldr RSeq (map RChar term) (RSeq RWordB REmpty))"
    using frame_of_literals [of "pushTerm RWordB Assertion emptyFrame" "term"]
    by (simp add: disjunction_def alternative_def pushTerm_def emptyFrame_def comp_def)
  finally show ?thesis .
qed

lemma ends_literals:
  "j \<in> set (ends (foldr RSeq (map RChar cs) r) s i) \<Longrightarrow> i \<le> length s \<Longrightarrow>
   i + length cs \<le> length s
   \<and> map canonicalize (take (length cs) (drop i s)) = map canonicalize cs
   \<and> j \<in> set (ends r s (i + length cs))"
proof (induction cs arbitrary: i)
  case Nil
  then show ?case by simp
next
  case (Cons c cs)
  from Cons.prems have i: "i < length s" "canonicalize (s ! i) = canonicalize c"
    and j: "j \<in> set (ends (foldr RSeq (map RChar cs) r) s (Suc i))"
    by (auto split: if_splits)
  from i have "Suc i \<le> length s" by simp
  from Cons.IH [OF j this] have ih: "Suc i + length cs \<le> length s"
    "map canonicalize (take (length cs) (drop (Suc i) s)) = map canonicalize cs"
    "j \<in> set (ends r s (Suc i + length cs))"
    by simp_all
  from i have "drop i s = s ! i # drop (Suc i) s" by (simp add: Cons_nth_drop_Suc)
  with i ih show ?case by simp
qed

lemma map_canonicalize_lower:
  "map canonicalize xs = map canonicalize ys \<Longrightarrow> toLowerCase xs = toLowerCase ys"
proof (induction xs arbitrary: ys)
  case Nil
  then show ?case by (simp add: toLowerCase_def)
next
  case (Cons x xs)
  then obtain y ys' where ys: "ys = y # ys'" by (cases ys) auto
  with Cons.prems have "canonicalize x = canonicalize y"
    "map canonicalize xs = map canonicalize ys'" by simp_all
  with Cons.IH [of ys'] canonicalize_lower [of x y] ys show ?case
    by (simp add: toLowerCase_def)
qed

text \<open>
  A term without syntax characters makes a pattern that the sample host accepts: the
  two word boundaries around the characters of the term.
\<close>

lemma literal_terms_compile:
  assumes "literal term"
  shows "compiles sample_host term"
  using literal_pattern [OF assms]
  by (simp add: compiles_def sample_host_def sample_regexpTest_def fragmentTest_def)

lemma literal_example: "literal ''fix bug'' \<and> compiles sample_host ''fix bug''"
proof -
  have l: "literal ''fix bug''" by code_simp
  with literal_terms_compile [OF l] show ?thesis by simp
qed

text \<open>
  For such a term the whole-word test succeeds only on a text that contains the term,
  case aside.
\<close>

lemma wordMatch_literal_includes:
  assumes lit: "literal term" and w: "wordMatch sample_host text term = Inr True"
  shows "str_includes (toLowerCase text) (toLowerCase term)"
proof -
  let ?r = "foldr RSeq (map RChar term) (RSeq RWordB REmpty)"
  from w literal_pattern [OF lit] have "rx_test (RSeq RWordB ?r) text"
    by (simp add: wordMatch_def sample_host_def sample_regexpTest_def fragmentTest_def)
  then have "\<exists>i\<le>length text. ends (RSeq RWordB ?r) text i \<noteq> []"
    unfolding rx_test_def list_ex_iff
    by (auto simp del: ends.simps) (use less_imp_le in blast)+
  then obtain i where i: "i \<le> length text" "ends (RSeq RWordB ?r) text i \<noteq> []"
    by blast
  then obtain j where "j \<in> set (ends (RSeq RWordB ?r) text i)"
    by (cases "ends (RSeq RWordB ?r) text i") auto
  then have "j \<in> set (ends ?r text i)" by (auto split: if_splits)
  from ends_literals [OF this i(1)]
  have le: "i + length term \<le> length text"
    and eq: "map canonicalize (take (length term) (drop i text)) = map canonicalize term"
    by simp_all
  from map_canonicalize_lower [OF eq]
  have "toLowerCase term = take (length term) (drop i (toLowerCase text))"
    by (simp add: toLowerCase_def take_map drop_map)
  then have "toLowerCase text =
             take i (toLowerCase text) @ toLowerCase term
             @ drop (length term) (drop i (toLowerCase text))"
    by (metis append_take_drop_id)
  then show ?thesis
    unfolding str_includes_def sublist_def by blast
qed

text \<open>
  So for a term without syntax characters a positive fuzzy score does mean that the
  characters of the term occur in the text in their order, the word tier of the scorer
  is never the one that applies, and the scorer and the text filter return.
\<close>

lemma fuzzyMatch_literal_subseq:
  assumes "literal term" "fuzzyMatch sample_host text term = Inr s" "0 < s"
  shows "subseq (toLowerCase term) (toLowerCase text)"
  using fuzzyMatch_positive [OF assms(2,3)] wordMatch_literal_includes [OF assms(1)]
  by (auto simp: str_includes_def sublist_imp_subseq)

lemma tierAward_literal:
  assumes "literal term"
  shows "tierAward sample_host v term \<in> {0, 50, 75, 100}"
  using wordMatch_literal_includes [OF assms, of v]
  by (auto simp: tierAward_def)

lemma scoreSearchResult_literal:
  "literal term \<Longrightarrow> \<exists>n. scoreSearchResult sample_host obj term flds = Inr n"
  by (rule scoreSearchResult_total [OF literal_terms_compile])

lemma textFilter_literal:
  assumes "mt \<notin> set inheritedMembers" "\<forall>t\<in>set tokens. literal t"
  shows "\<exists>res. textFilter sample_host flds mt tokens data = Inr res"
  using assms literal_terms_compile by (intro textFilter_total) auto

section \<open>The evaluation leaves the caller's records and array alone\<close>

lemma preserves_refl: "preserves base hp hp"
  by (simp add: preserves_def)

lemma preserves_trans:
  "preserves base hp hp1 \<Longrightarrow> preserves base hp1 hp2 \<Longrightarrow> preserves base hp hp2"
  by (auto simp: preserves_def)

lemma preserves_fresh: "preserves base hp hp' \<Longrightarrow> fresh hp \<le> fresh hp'"
  by (simp add: preserves_def)

lemma newArray_preserves:
  "newArray xs hp = (r, hp') \<Longrightarrow> base \<le> fresh hp \<Longrightarrow>
   preserves base hp hp' \<and> r = fresh hp \<and> fresh hp' = Suc (fresh hp)
   \<and> readArray hp' r = xs \<and> objects hp' = objects hp"
  by (auto simp: newArray_def preserves_def readArray_def)

lemma newObject_preserves:
  "newObject obj hp = (c, hp') \<Longrightarrow> base \<le> fresh hp \<Longrightarrow>
   preserves base hp hp' \<and> c = fresh hp \<and> fresh hp' = Suc (fresh hp)
   \<and> objects hp' = (objects hp)(c \<mapsto> obj) \<and> arrays hp' = arrays hp"
  by (auto simp: newObject_def preserves_def)

lemma writeArray_preserves:
  "base \<le> r \<Longrightarrow> preserves base hp (writeArray r xs hp)"
  by (auto simp: writeArray_def preserves_def)

lemma writeArray_read:
  "readArray (writeArray r xs hp) r = xs" "objects (writeArray r xs hp) = objects hp"
  "fresh (writeArray r xs hp) = fresh hp"
  by (simp_all add: writeArray_def readArray_def)

lemma textFilter_heap_preserves:
  assumes "textFilter_heap h flds mt tokens filtered hp = (out, hp')" "base \<le> fresh hp"
  shows "preserves base hp hp' \<and> objects hp' = objects hp
         \<and> (\<forall>r. out = Inr r \<longrightarrow> base \<le> r \<and> set (readArray hp' r) \<subseteq> set (readArray hp filtered))"
proof (cases "filter_e (\<lambda>a. every_e (tokenMatches h flds mt (readObject hp a)) tokens)
                (readArray hp filtered)")
  case (Inl e)
  with assms show ?thesis by (auto simp: textFilter_heap_def preserves_refl)
next
  case (Inr kept)
  obtain r hp1 where n: "newArray kept hp = (r, hp1)" by (cases "newArray kept hp")
  have sub: "set kept \<subseteq> set (readArray hp filtered)"
  proof -
    from filter_e_Inr [OF Inr] obtain P where "kept = filter P (readArray hp filtered)"
      by blast
    then show ?thesis by auto
  qed
  from newArray_preserves [OF n assms(2)] assms Inr n sub show ?thesis
    by (auto simp: textFilter_heap_def)
qed

lemma withScore_Inr:
  "withScore h term flds obj = Inr obj' \<Longrightarrow> \<exists>n. obj' = obj(''_searchScore'' \<mapsto> JNum n)"
  by (cases "scoreSearchResult h obj term flds") (auto simp: withScore_def)

lemma copies_heap_preserves:
  "copies_heap h term flds as hp = (out, hp') \<Longrightarrow> base \<le> fresh hp \<Longrightarrow>
   \<forall>a\<in>set as. a < fresh hp \<Longrightarrow>
   preserves base hp hp' \<and> arrays hp' = arrays hp
   \<and> (\<forall>a<fresh hp. objects hp' a = objects hp a)
   \<and> (\<forall>cs. out = Inr cs \<longrightarrow>
        (\<forall>c\<in>set cs. fresh hp \<le> c \<and>
           (\<exists>a\<in>set as. \<exists>n. objects hp' c = Some ((readObject hp a)(''_searchScore'' \<mapsto> JNum n)))))"
proof (induction as arbitrary: hp out hp')
  case Nil
  then show ?case by (auto simp: preserves_refl)
next
  case (Cons a as)
  show ?case
  proof (cases "withScore h term flds (readObject hp a)")
    case (Inl e)
    with Cons.prems show ?thesis by (auto simp: preserves_refl)
  next
    case (Inr obj)
    then obtain n where obj: "obj = (readObject hp a)(''_searchScore'' \<mapsto> JNum n)"
      using withScore_Inr by blast
    obtain c hp1 where no: "newObject obj hp = (c, hp1)" by (cases "newObject obj hp")
    note n1 = newObject_preserves [OF no Cons.prems(2)]
    obtain out2 hp2 where rec: "copies_heap h term flds as hp1 = (out2, hp2)"
      by (cases "copies_heap h term flds as hp1")
    from n1 Cons.prems(2) have b1: "base \<le> fresh hp1" by simp
    from n1 Cons.prems(3) have a1: "\<forall>a\<in>set as. a < fresh hp1" by auto
    note ih = Cons.IH [OF rec b1 a1]
    from Cons.prems(1) Inr no rec have hp': "hp' = hp2"
      and out: "out = (case out2 of Inl e \<Rightarrow> Inl e | Inr cs \<Rightarrow> Inr (c # cs))"
      by (auto split: sum.splits)
    have pres: "preserves base hp hp'"
      using n1 ih hp' preserves_trans by blast
    have arrs: "arrays hp' = arrays hp" using n1 ih hp' by simp
    have old: "\<forall>x<fresh hp. objects hp' x = objects hp x"
      using n1 ih hp' by auto
    have cobj: "objects hp' c = Some obj"
      using n1 ih hp' by auto
    have same: "readObject hp1 x = readObject hp x" if "x \<in> set as" for x
      using that n1 Cons.prems(3) by (auto simp: readObject_def)
    have new: "\<forall>c'\<in>set cs. fresh hp \<le> c' \<and>
           (\<exists>x\<in>set (a # as). \<exists>n. objects hp' c' = Some ((readObject hp x)(''_searchScore'' \<mapsto> JNum n)))"
      if cs: "out = Inr cs" for cs
    proof -
      from cs out obtain cs2 where o2: "out2 = Inr cs2" and cs2: "cs = c # cs2"
        by (cases out2) auto
      from ih o2 have t: "\<forall>c'\<in>set cs2. fresh hp1 \<le> c' \<and>
           (\<exists>x\<in>set as. \<exists>n. objects hp2 c' = Some ((readObject hp1 x)(''_searchScore'' \<mapsto> JNum n)))"
        by blast
      show ?thesis
      proof
        fix c' assume "c' \<in> set cs"
        with cs2 consider "c' = c" | "c' \<in> set cs2" by auto
        then show "fresh hp \<le> c' \<and>
           (\<exists>x\<in>set (a # as). \<exists>n. objects hp' c' = Some ((readObject hp x)(''_searchScore'' \<mapsto> JNum n)))"
        proof cases
          case 1
          with cobj obj n1 show ?thesis by auto
        next
          case 2
          with t obtain x m where x: "x \<in> set as" "fresh hp1 \<le> c'"
            "objects hp2 c' = Some ((readObject hp1 x)(''_searchScore'' \<mapsto> JNum m))"
            by blast
          with same [OF x(1)] n1 hp' show ?thesis by auto
        qed
      qed
    qed
    from pres arrs old new show ?thesis by blast
  qed
qed

lemma rank_heap_preserves:
  assumes r: "rank_heap h term flds filtered hp = (out, hp')" and b: "base \<le> fresh hp"
    and el: "\<forall>a\<in>set (readArray hp filtered). a < fresh hp"
  shows "preserves base hp hp' \<and> (\<forall>a<fresh hp. objects hp' a = objects hp a)
         \<and> (\<forall>r. out = Inr r \<longrightarrow> base \<le> r \<and>
              (\<forall>c\<in>set (readArray hp' r). fresh hp \<le> c \<and>
                 (\<exists>a\<in>set (readArray hp filtered). \<exists>n.
                    objects hp' c = Some ((readObject hp a)(''_searchScore'' \<mapsto> JNum n)))))"
proof -
  obtain out1 hp1 where c: "copies_heap h term flds (readArray hp filtered) hp = (out1, hp1)"
    by (cases "copies_heap h term flds (readArray hp filtered) hp")
  note c1 = copies_heap_preserves [OF c b el]
  show ?thesis
  proof (cases out1)
    case (Inl e)
    with r c c1 show ?thesis by (auto simp: rank_heap_def)
  next
    case (Inr cs)
    obtain r2 hp2 where n: "newArray cs hp1 = (r2, hp2)" by (cases "newArray cs hp1")
    from c1 b have b1: "base \<le> fresh hp1" by (auto dest: preserves_fresh)
    note n1 = newArray_preserves [OF n b1]
    let ?sorted = "sort_key (\<lambda>a. - searchScore (readObject hp2 a)) (readArray hp2 r2)"
    from r c Inr n have out: "out = Inr r2" and hp': "hp' = writeArray r2 ?sorted hp2"
      by (auto simp: rank_heap_def)
    from n1 b1 have br: "base \<le> r2" by simp
    have pres: "preserves base hp hp'"
      using c1 n1 writeArray_preserves [OF br, of hp2 ?sorted] hp' preserves_trans by blast
    have objs: "objects hp' = objects hp1"
      using n1 hp' by (simp add: writeArray_read)
    have arr: "set (readArray hp' r2) = set cs"
      using n1 hp' by (auto simp: writeArray_read)
    from c1 Inr objs arr out br pres show ?thesis by auto
  qed
qed

lemma applyFilters_heap_preserves:
  assumes "applyFilters_heap h appliedFilters filtered hp = (r, hp')" "base \<le> fresh hp"
    "base \<le> filtered"
  shows "preserves base hp hp' \<and> objects hp' = objects hp \<and> base \<le> r
         \<and> set (readArray hp' r) \<subseteq> set (readArray hp filtered)"
proof (cases "length appliedFilters > 0")
  case True
  with assms(1) have n: "newArray
             (filter (\<lambda>a. list_all (passesFilter h (readObject hp a)) appliedFilters)
                (readArray hp filtered)) hp = (r, hp')"
    by (simp add: applyFilters_heap_def)
  from newArray_preserves [OF n assms(2)] assms(2) show ?thesis by auto
next
  case False
  with assms show ?thesis by (simp add: applyFilters_heap_def preserves_refl)
qed

lemma sortWith_subset: "sortWith h cmp xs = Inr ys \<Longrightarrow> set ys \<subseteq> set xs"
  by (auto simp: sortWith_def split: sum.splits)

lemma sortResults_heap_preserves:
  assumes s: "sortResults_heap h sortBy flds filtered hp = (out, hp')" and "base \<le> fresh hp"
    and bf: "base \<le> filtered"
  shows "preserves base hp hp' \<and> objects hp' = objects hp
         \<and> (\<forall>r. out = Inr r \<longrightarrow> base \<le> r \<and> set (readArray hp' r) \<subseteq> set (readArray hp filtered))"
proof -
  have wr: "preserves base hp (writeArray filtered xs hp) \<and>
            objects (writeArray filtered xs hp) = objects hp \<and>
            readArray (writeArray filtered xs hp) filtered = xs" for xs
    using writeArray_preserves [OF bf] by (simp add: writeArray_read)
  consider (name) "sortBy = ''name'' \<and> ''title'' \<in> set flds"
    | (recent) "\<not> (sortBy = ''name'' \<and> ''title'' \<in> set flds)" "sortBy = ''recent''"
    | (none) "\<not> (sortBy = ''name'' \<and> ''title'' \<in> set flds)" "sortBy \<noteq> ''recent''"
    by blast
  then show ?thesis
  proof cases
    case name
    show ?thesis
    proof (cases "sortWith h (\<lambda>a b. titleCompare h (readObject hp a) (readObject hp b))
                (readArray hp filtered)")
      case (Inl e)
      with s name show ?thesis by (auto simp: sortResults_heap_def preserves_refl)
    next
      case (Inr xs)
      with s name have "out = Inr filtered" "hp' = writeArray filtered xs hp"
        by (auto simp: sortResults_heap_def)
      with wr [of xs] sortWith_subset [OF Inr] bf show ?thesis by auto
    qed
  next
    case recent
    show ?thesis
    proof (cases "sortWith h (\<lambda>a b. recentCompare h (readObject hp a) (readObject hp b))
                (readArray hp filtered)")
      case (Inl e)
      with s recent show ?thesis by (auto simp: sortResults_heap_def preserves_refl)
    next
      case (Inr xs)
      with s recent have "out = Inr filtered" "hp' = writeArray filtered xs hp"
        by (auto simp: sortResults_heap_def)
      with wr [of xs] sortWith_subset [OF Inr] bf show ?thesis by auto
    qed
  next
    case none
    with s bf show ?thesis by (auto simp: sortResults_heap_def preserves_refl)
  qed
qed

lemma slice0_subset: "set (slice0 xs k) \<subseteq> set xs"
  by (auto simp: slice0_def dest: in_set_takeD)

lemma applyLimit_heap_preserves:
  assumes a: "applyLimit_heap limit filtered hp = (r, hp')" and b: "base \<le> fresh hp"
    and bf: "base \<le> filtered"
  shows "preserves base hp hp' \<and> objects hp' = objects hp \<and> base \<le> r
         \<and> set (readArray hp' r) \<subseteq> set (readArray hp filtered)"
proof (cases "\<exists>k. limit = Some k \<and> k \<noteq> 0 \<and> int (length (readArray hp filtered)) > k")
  case True
  then obtain k where k: "limit = Some k" "k \<noteq> 0" "int (length (readArray hp filtered)) > k"
    by blast
  with a have n: "newArray (slice0 (readArray hp filtered) k) hp = (r, hp')"
    by (simp add: applyLimit_heap_def)
  from newArray_preserves [OF n b] b slice0_subset [of "readArray hp filtered" k]
  show ?thesis by auto
next
  case False
  with a have "r = filtered" "hp' = hp"
    by (auto simp: applyLimit_heap_def split: option.splits if_splits)
  with bf show ?thesis by (simp add: preserves_refl)
qed

lemma search_heap_preserves:
  assumes s: "search_heap h flds opts term tokens filtered hp = (out, hp')"
    and b: "base \<le> fresh hp" and bf: "base \<le> filtered"
    and el: "\<forall>a\<in>set (readArray hp filtered). a < fresh hp"
  shows "preserves base hp hp' \<and> (\<forall>a<fresh hp. objects hp' a = objects hp a)
         \<and> (\<forall>r. out = Inr r \<longrightarrow> base \<le> r \<and>
              (if rankResults opts \<and> term \<noteq> [] \<and> flds \<noteq> [] then
                 (\<forall>c\<in>set (readArray hp' r). fresh hp \<le> c \<and>
                    (\<exists>a\<in>set (readArray hp filtered). \<exists>n.
                       objects hp' c = Some ((readObject hp a)(''_searchScore'' \<mapsto> JNum n))))
               else objects hp' = objects hp
                    \<and> set (readArray hp' r) \<subseteq> set (readArray hp filtered)))"
proof (cases "term \<noteq> [] \<and> length flds > 0")
  case False
  with s bf show ?thesis by (auto simp: search_heap_def preserves_refl)
next
  case True
  obtain out1 hp1 where t: "textFilter_heap h flds (matchType opts) tokens filtered hp = (out1, hp1)"
    by (cases "textFilter_heap h flds (matchType opts) tokens filtered hp")
  note t1 = textFilter_heap_preserves [OF t b]
  show ?thesis
  proof (cases out1)
    case (Inl e)
    with s t True t1 show ?thesis by (auto simp: search_heap_def)
  next
    case (Inr r1)
    show ?thesis
    proof (cases "rankResults opts")
      case False
      with s t True Inr have "out = Inr r1" "hp' = hp1" by (auto simp: search_heap_def)
      with t1 Inr False show ?thesis by auto
    next
      case rk: True
      with s t True Inr have r: "rank_heap h term flds r1 hp1 = (out, hp')"
        by (auto simp: search_heap_def)
      from t1 b have b1: "base \<le> fresh hp1" by (auto dest: preserves_fresh)
      from t1 Inr el have el1: "\<forall>a\<in>set (readArray hp1 r1). a < fresh hp1"
        by (auto dest!: preserves_fresh) (meson subsetD less_le_trans)
      note r1 = rank_heap_preserves [OF r b1 el1]
      have pres: "preserves base hp hp'" using t1 r1 preserves_trans by blast
      have old: "\<forall>a<fresh hp. objects hp' a = objects hp a"
      proof (intro allI impI)
        fix a assume "a < fresh hp"
        with t1 have "a < fresh hp1" by (auto dest!: preserves_fresh)
        with r1 t1 show "objects hp' a = objects hp a" by auto
      qed
      have cp: "\<forall>c\<in>set (readArray hp' r). fresh hp \<le> c \<and>
                    (\<exists>a\<in>set (readArray hp filtered). \<exists>n.
                       objects hp' c = Some ((readObject hp a)(''_searchScore'' \<mapsto> JNum n)))"
        if o: "out = Inr r" for r
      proof
        fix c assume "c \<in> set (readArray hp' r)"
        with r1 o obtain a n where a: "fresh hp1 \<le> c" "a \<in> set (readArray hp1 r1)"
          "objects hp' c = Some ((readObject hp1 a)(''_searchScore'' \<mapsto> JNum n))"
          by blast
        with t1 Inr have "a \<in> set (readArray hp filtered)" by auto
        moreover from t1 have "readObject hp1 a = readObject hp a" by (simp add: readObject_def)
        moreover from t1 a have "fresh hp \<le> c" by (auto dest!: preserves_fresh)
        ultimately show "fresh hp \<le> c \<and>
                    (\<exists>a\<in>set (readArray hp filtered). \<exists>n.
                       objects hp' c = Some ((readObject hp a)(''_searchScore'' \<mapsto> JNum n)))"
          using a by auto
      qed
      from r1 have br: "\<forall>r. out = Inr r \<longrightarrow> base \<le> r" by blast
      from pres old cp br rk True show ?thesis by auto
    qed
  qed
qed

lemma wf_heap_elements:
  assumes "wf_heap hp"
  shows "\<forall>a\<in>set (readArray hp r). a \<in> dom (objects hp) \<and> a < fresh hp"
proof
  fix a assume a: "a \<in> set (readArray hp r)"
  then obtain xs where xs: "arrays hp r = Some xs" "a \<in> set xs"
    by (cases "arrays hp r") (auto simp: readArray_def)
  then have "xs \<in> ran (arrays hp)" by (auto simp: ran_def)
  with assms xs have d: "a \<in> dom (objects hp)" by (auto simp: wf_heap_def)
  with assms have "a < fresh hp" by (auto simp: wf_heap_def)
  with d show "a \<in> dom (objects hp) \<and> a < fresh hp" by simp
qed

text \<open>
  Claim C9. An evaluation on a well-formed store changes no object and no array that
  was there before it: the caller's records keep their fields, and the caller's array
  keeps its elements and their order, whether the evaluation returns or throws. When
  the results are ranked, every element of the result array is an object made by the
  evaluation, a copy of one of the caller's records with \<^verbatim>\<open>_searchScore\<close> added;
  otherwise the result array holds addresses of the caller's records themselves.
\<close>

theorem evaluate_heap_frame:
  assumes wf: "wf_heap hp"
    and ev: "evaluate_heap h data flds opts term appliedFilters sortBy startTime endTime hp
             = (out, hp')"
  shows "(\<forall>a\<in>dom (objects hp). objects hp' a = objects hp a)
       \<and> (\<forall>r\<in>dom (arrays hp). arrays hp' r = arrays hp r)
       \<and> (\<forall>res. out = Inr res \<longrightarrow>
            (if rankResults opts \<and> term \<noteq> [] \<and> flds \<noteq> [] then
               \<forall>c\<in>set (readArray hp' (results_ref res)). c \<notin> dom (objects hp) \<and>
                  (\<exists>a\<in>set (readArray hp data). \<exists>n.
                     objects hp' c = Some ((readObject hp a)(''_searchScore'' \<mapsto> JNum n)))
             else set (readArray hp' (results_ref res)) \<subseteq> set (readArray hp data)))"
proof (cases "term = [] \<and> length appliedFilters = 0")
  case True
  with ev show ?thesis by (auto simp: evaluate_heap_def)
next
  case False
  let ?base = "fresh hp"
  from wf have below: "\<forall>a\<in>dom (objects hp) \<union> dom (arrays hp). a < ?base"
    by (simp add: wf_heap_def)
  obtain f0 hp0 where n0: "newArray (readArray hp data) hp = (f0, hp0)"
    by (cases "newArray (readArray hp data) hp")
  note s0 = newArray_preserves [OF n0 order_refl]
  from s0 have b0: "?base \<le> fresh hp0" and bf0: "?base \<le> f0" by simp_all
  from s0 wf_heap_elements [OF wf, of data]
  have el0: "\<forall>a\<in>set (readArray hp0 f0). a < fresh hp0" by (auto intro: less_SucI)
  obtain out1 hp1 where s: "search_heap h flds opts term (parseSearchQuery term) f0 hp0 = (out1, hp1)"
    by (cases "search_heap h flds opts term (parseSearchQuery term) f0 hp0")
  note s1 = search_heap_preserves [OF s b0 bf0 el0]
  have p1: "preserves ?base hp hp1" using s0 s1 preserves_trans by blast
  show ?thesis
  proof (cases out1)
    case (Inl e)
    with ev False n0 s have "hp' = hp1" "out = Inl e"
      by (auto simp: evaluate_heap_def Let_def)
    with p1 below show ?thesis by (auto simp: preserves_def)
  next
    case (Inr f1)
    from p1 have b1: "?base \<le> fresh hp1" by (auto dest: preserves_fresh)
    from s1 Inr have bf1: "?base \<le> f1" by simp
    obtain f2 hp2 where a: "applyFilters_heap h appliedFilters f1 hp1 = (f2, hp2)"
      by (cases "applyFilters_heap h appliedFilters f1 hp1")
    note s2 = applyFilters_heap_preserves [OF a b1 bf1]
    have p2: "preserves ?base hp hp2" using p1 s2 preserves_trans by blast
    from p2 have b2: "?base \<le> fresh hp2" by (auto dest: preserves_fresh)
    from s2 have bf2: "?base \<le> f2" by simp
    obtain out3 hp3 where so: "sortResults_heap h sortBy flds f2 hp2 = (out3, hp3)"
      by (cases "sortResults_heap h sortBy flds f2 hp2")
    note s3 = sortResults_heap_preserves [OF so b2 bf2]
    have p3: "preserves ?base hp hp3" using p2 s3 preserves_trans by blast
    show ?thesis
    proof (cases out3)
      case (Inl e)
      with ev False n0 s Inr a so have "hp' = hp3" "out = Inl e"
        by (auto simp: evaluate_heap_def Let_def)
      with p3 below show ?thesis by (auto simp: preserves_def)
    next
      case f3: (Inr f3)
      from p3 have b3: "?base \<le> fresh hp3" by (auto dest: preserves_fresh)
      from s3 f3 have bf3: "?base \<le> f3" by simp
      obtain f4 hp4 where l: "applyLimit_heap (maxResults opts) f3 hp3 = (f4, hp4)"
        by (cases "applyLimit_heap (maxResults opts) f3 hp3")
      note s4 = applyLimit_heap_preserves [OF l b3 bf3]
      have p4: "preserves ?base hp hp4" using p3 s4 preserves_trans by blast
      from ev False n0 s Inr a so f3 l obtain res where
        out: "out = Inr res" "results_ref res = f4" and hp': "hp' = hp4"
        by (auto simp: evaluate_heap_def Let_def)
      have frame: "(\<forall>a\<in>dom (objects hp). objects hp' a = objects hp a)
           \<and> (\<forall>r\<in>dom (arrays hp). arrays hp' r = arrays hp r)"
        using p4 below hp' by (auto simp: preserves_def)
      have sub: "set (readArray hp4 f4) \<subseteq> set (readArray hp1 f1)"
        using s2 s3 s4 f3 by blast
      have objs: "objects hp4 = objects hp1" using s2 s3 s4 by simp
      have rd0: "readArray hp0 f0 = readArray hp data" "objects hp0 = objects hp"
        using s0 by auto
      have last: "if rankResults opts \<and> term \<noteq> [] \<and> flds \<noteq> [] then
               \<forall>c\<in>set (readArray hp' (results_ref res)). c \<notin> dom (objects hp) \<and>
                  (\<exists>a\<in>set (readArray hp data). \<exists>n.
                     objects hp' c = Some ((readObject hp a)(''_searchScore'' \<mapsto> JNum n)))
             else set (readArray hp' (results_ref res)) \<subseteq> set (readArray hp data)"
      proof (cases "rankResults opts \<and> term \<noteq> [] \<and> flds \<noteq> []")
        case True
        have "c \<notin> dom (objects hp) \<and>
                  (\<exists>a\<in>set (readArray hp data). \<exists>n.
                     objects hp' c = Some ((readObject hp a)(''_searchScore'' \<mapsto> JNum n)))"
          if c: "c \<in> set (readArray hp' (results_ref res))" for c
        proof -
          from c out hp' sub have "c \<in> set (readArray hp1 f1)" by auto
          with s1 Inr True obtain a n where a: "fresh hp0 \<le> c" "a \<in> set (readArray hp0 f0)"
            "objects hp1 c = Some ((readObject hp0 a)(''_searchScore'' \<mapsto> JNum n))"
            by auto
          have "c \<notin> dom (objects hp)"
          proof
            assume "c \<in> dom (objects hp)"
            with below have "c < fresh hp" by blast
            with a(1) b0 show False by simp
          qed
          moreover from rd0 have "readObject hp0 a = readObject hp a"
            by (simp add: readObject_def)
          ultimately show ?thesis using a rd0 objs hp' by auto
        qed
        with True show ?thesis by simp
      next
        case nr: False
        with s1 Inr have "set (readArray hp1 f1) \<subseteq> set (readArray hp0 f0)" by auto
        with sub rd0 out hp' nr show ?thesis by auto
      qed
      from frame last out show ?thesis by auto
    qed
  qed
qed

theorem evaluate_heap_frame_witness:
  "wf_heap \<lparr>objects = [0 \<mapsto> [''title'' \<mapsto> JStr ''ab''], 1 \<mapsto> [''title'' \<mapsto> JStr ''a'']],
            arrays = [2 \<mapsto> [0, 1]], fresh = 3\<rparr>
   \<and> objects (snd (evaluate_heap sample_host 2 [''title'']
        \<lparr>matchType = ''substring'', rankResults = True, maxResults = None\<rparr>
        ''a'' [] ''relevance'' 0 0
        \<lparr>objects = [0 \<mapsto> [''title'' \<mapsto> JStr ''ab''], 1 \<mapsto> [''title'' \<mapsto> JStr ''a'']],
         arrays = [2 \<mapsto> [0, 1]], fresh = 3\<rparr>)) 0 = Some [''title'' \<mapsto> JStr ''ab'']
   \<and> arrays (snd (evaluate_heap sample_host 2 [''title'']
        \<lparr>matchType = ''substring'', rankResults = True, maxResults = None\<rparr>
        ''a'' [] ''relevance'' 0 0
        \<lparr>objects = [0 \<mapsto> [''title'' \<mapsto> JStr ''ab''], 1 \<mapsto> [''title'' \<mapsto> JStr ''a'']],
         arrays = [2 \<mapsto> [0, 1]], fresh = 3\<rparr>)) 2 = Some [0, 1]
   \<and> (case evaluate_heap sample_host 2 [''title'']
        \<lparr>matchType = ''substring'', rankResults = True, maxResults = None\<rparr>
        ''a'' [] ''relevance'' 0 0
        \<lparr>objects = [0 \<mapsto> [''title'' \<mapsto> JStr ''ab''], 1 \<mapsto> [''title'' \<mapsto> JStr ''a'']],
         arrays = [2 \<mapsto> [0, 1]], fresh = 3\<rparr> of
         (out, hp') \<Rightarrow>
           map_sum id
             (\<lambda>res. map (\<lambda>c. (c, getProp (readObject hp' c) ''title'',
                                getProp (readObject hp' c) ''_searchScore''))
                      (readArray hp' (results_ref res))) out)
       = Inr [(6, JStr ''a'', JNum 100), (5, JStr ''ab'', JNum 75)]"
proof -
  let ?hp = "\<lparr>objects = [0 \<mapsto> [''title'' \<mapsto> JStr ''ab''], 1 \<mapsto> [''title'' \<mapsto> JStr ''a'']],
            arrays = [2 \<mapsto> [0 :: nat, 1]], fresh = 3 :: nat\<rparr>"
  let ?ev = "evaluate_heap sample_host 2 [''title'']
        \<lparr>matchType = ''substring'', rankResults = True, maxResults = None\<rparr>
        ''a'' [] ''relevance'' 0 0 ?hp"
  have wf: "wf_heap ?hp" by (auto simp: wf_heap_def ran_def split: if_splits)
  have ev: "?ev = (fst ?ev, snd ?ev)" by simp
  note fr = evaluate_heap_frame [OF wf ev]
  from fr have "objects (snd ?ev) 0 = objects ?hp 0" by auto
  moreover from fr have "arrays (snd ?ev) 2 = arrays ?hp 2" by auto
  moreover have "(case ?ev of
         (out, hp') \<Rightarrow>
           map_sum id
             (\<lambda>res. map (\<lambda>c. (c, getProp (readObject hp' c) ''title'',
                                getProp (readObject hp' c) ''_searchScore''))
                      (readArray hp' (results_ref res))) out)
       = Inr [(6, JStr ''a'', JNum 100), (5, JStr ''ab'', JNum 75)]"
    by code_simp
  ultimately show ?thesis using wf by simp
qed

section \<open>The evaluation on the store computes the evaluation on values\<close>

lemma filter_e_map:
  "filter_e p (map f xs) = map_sum id (map f) (filter_e (\<lambda>x. p (f x)) xs)"
  by (induction xs) (auto split: sum.splits)

lemma map_e_map:
  "map_e g (map f xs) = map_e (\<lambda>x. g (f x)) xs"
  by (induction xs) (auto split: sum.splits)

lemma insort_key_map:
  "insort_key k (f x) (map f ys) = map f (insort_key (\<lambda>a. k (f a)) x ys)"
  by (induction ys) auto

lemma sort_key_map:
  "sort_key k (map f xs) = map f (sort_key (\<lambda>a. k (f a)) xs)"
  by (induction xs) (auto simp: insort_key_map)

lemma compareAt_map:
  "compareAt cmp (map f xs) = compareAt (\<lambda>a b. cmp (f a) (f b)) xs"
  by (intro ext) (simp add: compareAt_def)

lemma sortWith_map:
  "sortWith h cmp (map f xs) = map_sum id (map f) (sortWith h (\<lambda>a b. cmp (f a) (f b)) xs)"
  by (auto simp: sortWith_def compareAt_map split: sum.splits)

lemma contents_newArray:
  "newArray xs hp = (r, hp') \<Longrightarrow> contents hp' r = map (readObject hp) xs"
  by (auto simp: newArray_def contents_def readArray_def readObject_def)

lemma textFilter_heap_refines:
  assumes "textFilter_heap h flds mt tokens filtered hp = (out, hp')"
  shows "map_sum id (contents hp') out = textFilter h flds mt tokens (contents hp filtered)"
proof (cases "filter_e (\<lambda>a. every_e (tokenMatches h flds mt (readObject hp a)) tokens)
                (readArray hp filtered)")
  case (Inl e)
  with assms show ?thesis
    by (auto simp: textFilter_heap_def textFilter_def contents_def filter_e_map)
next
  case (Inr kept)
  obtain r hp1 where n: "newArray kept hp = (r, hp1)" by (cases "newArray kept hp")
  with assms Inr contents_newArray [OF n] show ?thesis
    by (auto simp: textFilter_heap_def textFilter_def contents_def filter_e_map)
qed

lemma copies_heap_refines:
  "copies_heap h term flds as hp = (out, hp') \<Longrightarrow> \<forall>a\<in>set as. a < fresh hp \<Longrightarrow>
   map_sum id (map (readObject hp')) out = map_e (withScore h term flds) (map (readObject hp) as)
   \<and> fresh hp \<le> fresh hp' \<and> (\<forall>a<fresh hp. objects hp' a = objects hp a)"
proof (induction as arbitrary: hp out hp')
  case Nil
  then show ?case by auto
next
  case (Cons a as)
  show ?case
  proof (cases "withScore h term flds (readObject hp a)")
    case (Inl e)
    with Cons.prems show ?thesis by auto
  next
    case (Inr obj)
    obtain c hp1 where no: "newObject obj hp = (c, hp1)" by (cases "newObject obj hp")
    then have c: "c = fresh hp" "fresh hp1 = Suc (fresh hp)"
      "objects hp1 = (objects hp)(c \<mapsto> obj)"
      by (auto simp: newObject_def)
    obtain out2 hp2 where rec: "copies_heap h term flds as hp1 = (out2, hp2)"
      by (cases "copies_heap h term flds as hp1")
    from c Cons.prems(2) have a1: "\<forall>a\<in>set as. a < fresh hp1" by auto
    note ih = Cons.IH [OF rec a1]
    from Cons.prems(1) Inr no rec have hp': "hp' = hp2"
      and out: "out = (case out2 of Inl e \<Rightarrow> Inl e | Inr cs \<Rightarrow> Inr (c # cs))"
      by (auto split: sum.splits)
    have same: "map (readObject hp1) as = map (readObject hp) as"
      using c Cons.prems(2) by (auto simp: readObject_def)
    have rc: "readObject hp2 c = obj"
      using ih c by (simp add: readObject_def)
    have old: "\<forall>x<fresh hp. objects hp' x = objects hp x"
      using ih c hp' by auto
    from ih c hp' have fr: "fresh hp \<le> fresh hp'" by simp
    have pure: "map_e (withScore h term flds) (map (readObject hp) as) =
                map_sum id (map (readObject hp2)) out2"
      using ih same by (simp add: id_def)
    have "map_sum id (map (readObject hp')) out =
          map_e (withScore h term flds) (map (readObject hp) (a # as))"
    proof (cases out2)
      case (Inl e)
      with out Inr show ?thesis by (simp add: pure)
    next
      case cs: (Inr cs)
      with out Inr rc hp' show ?thesis by (simp add: pure)
    qed
    with old fr show ?thesis by (simp add: id_def)
  qed
qed

lemma rank_heap_refines:
  assumes r: "rank_heap h term flds filtered hp = (out, hp')"
    and el: "\<forall>a\<in>set (readArray hp filtered). a < fresh hp"
  shows "map_sum id (contents hp') out = rank h term flds (contents hp filtered)"
proof -
  obtain out1 hp1 where c: "copies_heap h term flds (readArray hp filtered) hp = (out1, hp1)"
    by (cases "copies_heap h term flds (readArray hp filtered) hp")
  from copies_heap_refines [OF c el]
  have pure: "map_e (withScore h term flds) (contents hp filtered) =
              map_sum id (map (readObject hp1)) out1"
    by (simp add: contents_def id_def)
  show ?thesis
  proof (cases out1)
    case (Inl e)
    with r c show ?thesis by (auto simp: rank_heap_def rank_def pure)
  next
    case (Inr cs)
    obtain r2 hp2 where n: "newArray cs hp1 = (r2, hp2)" by (cases "newArray cs hp1")
    then have n2: "readArray hp2 r2 = cs" "objects hp2 = objects hp1"
      by (auto simp: newArray_def readArray_def)
    let ?sorted = "sort_key (\<lambda>a. - searchScore (readObject hp2 a)) (readArray hp2 r2)"
    from r c Inr n have out: "out = Inr r2" and hp': "hp' = writeArray r2 ?sorted hp2"
      by (auto simp: rank_heap_def)
    have ro: "readObject hp' = readObject hp1"
      using hp' n2 by (intro ext) (simp add: readObject_def writeArray_def)
    have ro2: "readObject hp2 = readObject hp1"
      using n2 by (intro ext) (simp add: readObject_def)
    have "contents hp' r2 = map (readObject hp1) (sort_key (\<lambda>a. - searchScore (readObject hp1 a)) cs)"
      using hp' n2 ro ro2 by (simp add: contents_def writeArray_def readArray_def)
    also have "\<dots> = sort_key (\<lambda>obj. - searchScore obj) (map (readObject hp1) cs)"
      by (simp add: sort_key_map)
    finally show ?thesis
      using out Inr by (simp add: rank_def pure)
  qed
qed

lemma applyFilters_heap_refines:
  assumes "applyFilters_heap h appliedFilters filtered hp = (r, hp')"
  shows "contents hp' r = applyFilters h appliedFilters (contents hp filtered)"
proof (cases "length appliedFilters > 0")
  case True
  with assms have n: "newArray
             (filter (\<lambda>a. list_all (passesFilter h (readObject hp a)) appliedFilters)
                (readArray hp filtered)) hp = (r, hp')"
    by (simp add: applyFilters_heap_def)
  from contents_newArray [OF n] True show ?thesis
    by (simp add: applyFilters_def contents_def filter_map comp_def)
next
  case False
  with assms show ?thesis by (simp add: applyFilters_heap_def applyFilters_def)
qed

lemma contents_writeArray:
  "contents (writeArray r xs hp) r = map (readObject hp) xs"
  by (simp add: contents_def writeArray_def readArray_def readObject_def)

lemma sortResults_heap_refines:
  assumes s: "sortResults_heap h sortBy flds filtered hp = (out, hp')"
  shows "map_sum id (contents hp') out = sortResults h sortBy flds (contents hp filtered)"
proof -
  consider (name) "sortBy = ''name'' \<and> ''title'' \<in> set flds"
    | (recent) "\<not> (sortBy = ''name'' \<and> ''title'' \<in> set flds)" "sortBy = ''recent''"
    | (none) "\<not> (sortBy = ''name'' \<and> ''title'' \<in> set flds)" "sortBy \<noteq> ''recent''"
    by blast
  then show ?thesis
  proof cases
    case name
    have pure: "sortResults h sortBy flds (contents hp filtered) =
      map_sum id (map (readObject hp))
        (sortWith h (\<lambda>a b. titleCompare h (readObject hp a) (readObject hp b))
           (readArray hp filtered))"
      using name by (simp add: sortResults_def contents_def sortWith_map)
    show ?thesis
    proof (cases "sortWith h (\<lambda>a b. titleCompare h (readObject hp a) (readObject hp b))
                (readArray hp filtered)")
      case (Inl e)
      with s name have "out = Inl e" "hp' = hp" by (auto simp: sortResults_heap_def)
      with Inl show ?thesis by (simp add: pure)
    next
      case (Inr xs)
      with s name have "out = Inr filtered" "hp' = writeArray filtered xs hp"
        by (auto simp: sortResults_heap_def)
      with Inr show ?thesis by (simp add: pure contents_writeArray)
    qed
  next
    case recent
    have pure: "sortResults h sortBy flds (contents hp filtered) =
      map_sum id (map (readObject hp))
        (sortWith h (\<lambda>a b. recentCompare h (readObject hp a) (readObject hp b))
           (readArray hp filtered))"
      using recent by (simp add: sortResults_def contents_def sortWith_map)
    show ?thesis
    proof (cases "sortWith h (\<lambda>a b. recentCompare h (readObject hp a) (readObject hp b))
                (readArray hp filtered)")
      case (Inl e)
      with s recent have "out = Inl e" "hp' = hp" by (auto simp: sortResults_heap_def)
      with Inl show ?thesis by (simp add: pure)
    next
      case (Inr xs)
      with s recent have "out = Inr filtered" "hp' = writeArray filtered xs hp"
        by (auto simp: sortResults_heap_def)
      with Inr show ?thesis by (simp add: pure contents_writeArray)
    qed
  next
    case none
    with s show ?thesis by (auto simp: sortResults_heap_def sortResults_def)
  qed
qed

lemma applyLimit_heap_refines:
  assumes a: "applyLimit_heap limit filtered hp = (r, hp')"
  shows "contents hp' r = applyLimit limit (contents hp filtered)
         \<and> length (readArray hp' r) = length (applyLimit limit (contents hp filtered))"
proof (cases "\<exists>k. limit = Some k \<and> k \<noteq> 0 \<and> int (length (readArray hp filtered)) > k")
  case True
  then obtain k where k: "limit = Some k" "k \<noteq> 0" "int (length (readArray hp filtered)) > k"
    by blast
  with a have n: "newArray (slice0 (readArray hp filtered) k) hp = (r, hp')"
    by (simp add: applyLimit_heap_def)
  then have "readArray hp' r = slice0 (readArray hp filtered) k"
    by (auto simp: newArray_def readArray_def)
  with contents_newArray [OF n] k show ?thesis
    by (simp add: applyLimit_def contents_def slice0_def take_map)
next
  case False
  with a have "r = filtered" "hp' = hp"
    by (auto simp: applyLimit_heap_def split: option.splits if_splits)
  with False show ?thesis
    by (auto simp: applyLimit_def contents_def split: option.splits)
qed

lemma search_heap_refines:
  assumes s: "search_heap h flds opts term tokens filtered hp = (out, hp')"
    and el: "\<forall>a\<in>set (readArray hp filtered). a < fresh hp"
  shows "map_sum id (contents hp') out = searchStage h flds opts term tokens (contents hp filtered)"
proof (cases "term \<noteq> [] \<and> length flds > 0")
  case False
  with s show ?thesis by (auto simp: search_heap_def searchStage_def)
next
  case True
  obtain out1 hp1 where t: "textFilter_heap h flds (matchType opts) tokens filtered hp = (out1, hp1)"
    by (cases "textFilter_heap h flds (matchType opts) tokens filtered hp")
  note t1 = textFilter_heap_refines [OF t]
  note t2 = textFilter_heap_preserves [OF t order_refl]
  show ?thesis
  proof (cases out1)
    case (Inl e)
    with s t True t1 show ?thesis
      by (auto simp: search_heap_def searchStage_def split: sum.splits)
  next
    case (Inr r1)
    with t1 have tf: "textFilter h flds (matchType opts) tokens (contents hp filtered)
                      = Inr (contents hp1 r1)" by simp
    show ?thesis
    proof (cases "rankResults opts")
      case False
      with s t True Inr have "out = Inr r1" "hp' = hp1" by (auto simp: search_heap_def)
      with tf True False show ?thesis by (simp add: searchStage_def)
    next
      case rk: True
      with s t True Inr have r: "rank_heap h term flds r1 hp1 = (out, hp')"
        by (auto simp: search_heap_def)
      from t2 Inr el have el1: "\<forall>a\<in>set (readArray hp1 r1). a < fresh hp1"
        by (auto dest!: preserves_fresh) (meson subsetD less_le_trans)
      from rank_heap_refines [OF r el1] tf True rk show ?thesis
        by (simp add: searchStage_def)
    qed
  qed
qed

text \<open>
  On a well-formed store, the result of the evaluation on the store, with the result
  array read as the list of the records it holds, is the result of the evaluation on the
  list of the records that the caller's array holds; the one throws when the other does.
\<close>

lemma evaluate_heap_refines:
  assumes wf: "wf_heap hp"
    and ev: "evaluate_heap h data flds opts term appliedFilters sortBy startTime endTime hp
             = (out, hp')"
  shows "map_sum id (readResult hp') out =
         evaluate h (contents hp data) flds opts term appliedFilters sortBy startTime endTime"
proof (cases "term = [] \<and> length appliedFilters = 0")
  case True
  with ev show ?thesis
    by (auto simp: evaluate_heap_def evaluate_def readResult_def contents_def)
next
  case False
  obtain f0 hp0 where n0: "newArray (readArray hp data) hp = (f0, hp0)"
    by (cases "newArray (readArray hp data) hp")
  note s0 = newArray_preserves [OF n0 order_refl]
  from contents_newArray [OF n0] have c0: "contents hp0 f0 = contents hp data"
    by (simp add: contents_def)
  from s0 wf_heap_elements [OF wf, of data]
  have el0: "\<forall>a\<in>set (readArray hp0 f0). a < fresh hp0" by (auto intro: less_SucI)
  obtain out1 hp1 where s: "search_heap h flds opts term (parseSearchQuery term) f0 hp0 = (out1, hp1)"
    by (cases "search_heap h flds opts term (parseSearchQuery term) f0 hp0")
  from search_heap_refines [OF s el0] c0
  have p1: "searchStage h flds opts term (parseSearchQuery term) (contents hp data) =
            map_sum id (contents hp1) out1" by simp
  show ?thesis
  proof (cases out1)
    case (Inl e)
    with ev False n0 s have "out = Inl e"
      by (auto simp: evaluate_heap_def Let_def)
    with False Inl show ?thesis by (simp add: evaluate_def p1 Let_def)
  next
    case (Inr f1)
    obtain f2 hp2 where a: "applyFilters_heap h appliedFilters f1 hp1 = (f2, hp2)"
      by (cases "applyFilters_heap h appliedFilters f1 hp1")
    note p2 = applyFilters_heap_refines [OF a]
    obtain out3 hp3 where so: "sortResults_heap h sortBy flds f2 hp2 = (out3, hp3)"
      by (cases "sortResults_heap h sortBy flds f2 hp2")
    from sortResults_heap_refines [OF so] p2
    have p3: "sortResults h sortBy flds (applyFilters h appliedFilters (contents hp1 f1)) =
              map_sum id (contents hp3) out3" by simp
    show ?thesis
    proof (cases out3)
      case (Inl e)
      with ev False n0 s Inr a so have "out = Inl e"
        by (auto simp: evaluate_heap_def Let_def)
      with False Inr Inl show ?thesis by (simp add: evaluate_def p1 p3 Let_def)
    next
      case f3: (Inr f3)
      obtain f4 hp4 where l: "applyLimit_heap (maxResults opts) f3 hp3 = (f4, hp4)"
        by (cases "applyLimit_heap (maxResults opts) f3 hp3")
      note p4 = applyLimit_heap_refines [OF l]
      from ev False n0 s Inr a so f3 l have
        "out = Inr \<lparr>results_ref = f4, resultCount_h = length (readArray hp4 f4),
                    searchTime_h = endTime - startTime,
                    stats_h = \<lparr>searched = True,
                               termsCount = length (parseSearchQuery term),
                               tokensUsed = Some (parseSearchQuery term)\<rparr>\<rparr>"
        and "hp' = hp4"
        by (auto simp: evaluate_heap_def Let_def)
      with False Inr f3 p4 show ?thesis
        by (simp add: evaluate_def p1 p3 Let_def readResult_def)
    qed
  qed
qed

lemma evaluate_heap_refines_example:
  "wf_heap \<lparr>objects = [0 \<mapsto> [''title'' \<mapsto> JStr ''ab'']], arrays = [1 \<mapsto> [0]], fresh = 2\<rparr>
   \<and> map_sum id resultCount
       (evaluate sample_host
          (contents \<lparr>objects = [0 \<mapsto> [''title'' \<mapsto> JStr ''ab'']], arrays = [1 \<mapsto> [0]],
                     fresh = 2\<rparr> 1)
          [''title''] \<lparr>matchType = ''prefix'', rankResults = True, maxResults = None\<rparr>
          ''a'' [] ''relevance'' 0 0) = Inr 1"
proof -
  have "wf_heap \<lparr>objects = [0 \<mapsto> [''title'' \<mapsto> JStr ''ab'']], arrays = [1 \<mapsto> [0 :: nat]],
                 fresh = 2 :: nat\<rparr>"
    by (auto simp: wf_heap_def ran_def split: if_splits)
  moreover have "map_sum id resultCount
       (evaluate sample_host
          (contents \<lparr>objects = [0 \<mapsto> [''title'' \<mapsto> JStr ''ab'']], arrays = [1 \<mapsto> [0]],
                     fresh = 2\<rparr> 1)
          [''title''] \<lparr>matchType = ''prefix'', rankResults = True, maxResults = None\<rparr>
          ''a'' [] ''relevance'' 0 0) = Inr 1"
    by code_simp
  ultimately show ?thesis by simp
qed

end
